theory Spec2Isabelle
  imports Complex_Main "HOL-Library.Sublist"
begin

section \<open>Data model of the page script (src/src/main.js)\<close>

text \<open>
  A browser \<open>File\<close> as far as the script reads it: its name, its declared media type and
  its size in bytes.
\<close>

record jsfile =
  file_name :: string
  file_type :: string
  file_size :: nat

type_synonym blob = "nat list"

text \<open>
  \<open>URL.createObjectURL\<close> returns an opaque handle; the model keeps what the handle
  refers to.
\<close>

datatype objurl = FileURL jsfile | BlobURL blob

text \<open>The object literal \<open>imageData\<close> built by \<open>processImage\<close>.\<close>

record imageData =
  original :: objurl
  result :: objurl
  resultBlob :: blob
  name :: string

text \<open>
  A value caught by a \<open>catch\<close> clause, as far as the script reads it: its \<open>message\<close>
  property, \<open>None\<close> when the property is undefined.
\<close>

datatype js_error = JsError (message: "string option")

text \<open>
  A JavaScript number as far as the slider needs it: a finite value (rounding is not
  modelled, the value is a real), the two infinities and NaN.
\<close>

datatype jsnum = Fin real | PosInf | NegInf | NaN

text \<open>The part of a \<open>DOMRect\<close> that \<open>handleSliderMove\<close> reads.\<close>

record rect =
  rect_left :: real
  rect_width :: real

datatype display = Unset | DisplayNone | DisplayBlock

text \<open>
  One call of the async function \<open>processImage\<close> that has not returned yet, with the
  place where it is suspended:
  \<^item> \<open>Ready\<close>: at \<open>await initializeModel()\<close>, whose promise is already fulfilled; the
    continuation is a queued microtask;
  \<^item> \<open>AwaitImport\<close>: at \<open>await initializeModel()\<close>, which itself waits for the dynamic
    \<open>import\<close>;
  \<^item> \<open>AwaitInference u\<close>: at \<open>await removeBackgroundFn(file, config)\<close>, with the local
    \<open>originalUrl = u\<close>.
  \<open>trest\<close> holds the files that the \<open>for\<close> loop of \<open>processRemainingFiles\<close> still has
  to visit once this call returns; it is empty for the call that \<open>handleFiles\<close> makes
  itself and does not await.
\<close>

datatype wait = Ready | AwaitImport | AwaitInference objurl

record task =
  tid :: nat
  tfile :: jsfile
  twait :: wait
  trest :: "jsfile list"

text \<open>
  The module state (\<open>removeBackgroundFn\<close>, \<open>modelLoaded\<close>, \<open>processedImages\<close>,
  \<open>currentImageIndex\<close>, \<open>isDragging\<close>), the properties of the DOM elements that the
  script writes, the suspended calls, and three logs of what the script has asked of its
  environment: the messages passed to \<open>showError\<close>, the calls of \<open>removeBackgroundFn\<close>
  and the downloads triggered. The progress bar and the two captions of the processing
  view are presentation only and are left out, and so are the \<open>drag-over\<close> class and the
  \<open>clip-path\<close> of the slider, which repeats the clamped percentage.
\<close>

record app =
  removeBackgroundFn :: bool
  modelLoaded :: bool
  processedImages :: "imageData list"
  currentImageIndex :: int
  isDragging :: bool
  uploadZoneDisplay :: display
  processingActive :: bool
  resultActive :: bool
  errorActive :: bool
  errorText :: string
  originalSrc :: "objurl option"
  resultSrc :: "objurl option"
  clampedPercentage :: "jsnum option"
  queueActive :: bool
  queueItems :: nat
  tasks :: "task list"
  nextTid :: nat
  errorsShown :: "string list"
  calls :: "(nat \<times> jsfile) list"
  downloads :: "(objurl \<times> string) list"

definition init :: app where
  "init = \<lparr> removeBackgroundFn = False, modelLoaded = False, processedImages = [],
     currentImageIndex = - 1, isDragging = False, uploadZoneDisplay = Unset,
     processingActive = False, resultActive = False, errorActive = False, errorText = [],
     originalSrc = None, resultSrc = None, clampedPercentage = None,
     queueActive = False, queueItems = 0, tasks = [], nextTid = 0,
     errorsShown = [], calls = [], downloads = [] \<rparr>"

section \<open>View state and slider\<close>

definition showProcessing :: "app \<Rightarrow> app" where
  "showProcessing s =
     s\<lparr>uploadZoneDisplay := DisplayNone, processingActive := True, resultActive := False\<rparr>"

definition hideProcessing :: "app \<Rightarrow> app" where
  "hideProcessing s = s\<lparr>processingActive := False\<rparr>"

definition showUpload :: "app \<Rightarrow> app" where
  "showUpload s = s\<lparr>uploadZoneDisplay := DisplayBlock, resultActive := False\<rparr>"

definition showError :: "string \<Rightarrow> app \<Rightarrow> app" where
  "showError m s = s\<lparr>errorText := m, errorActive := True, errorsShown := errorsShown s @ [m]\<rparr>"

definition hideError :: "app \<Rightarrow> app" where
  "hideError s = s\<lparr>errorActive := False\<rparr>"

text \<open>\<open>Math.max(0, Math.min(100, percentage))\<close>: NaN goes through both.\<close>

fun clamp :: "jsnum \<Rightarrow> jsnum" where
  "clamp (Fin p) = Fin (max 0 (min 100 p))"
| "clamp PosInf = Fin 100"
| "clamp NegInf = Fin 0"
| "clamp NaN = NaN"

definition setSliderPosition :: "jsnum \<Rightarrow> app \<Rightarrow> app" where
  "setSliderPosition percentage s = s\<lparr>clampedPercentage := Some (clamp percentage)\<rparr>"

text \<open>
  \<open>(x / rect.width) * 100\<close>: a division by zero gives an infinity with the sign of
  \<open>x\<close>, or NaN for \<open>0 / 0\<close>.
\<close>

definition percentage_of :: "real \<Rightarrow> real \<Rightarrow> jsnum" where
  "percentage_of x w =
     (if w \<noteq> 0 then Fin ((x / w) * 100)
      else if 0 < x then PosInf else if x < 0 then NegInf else NaN)"

definition handleSliderMove :: "real \<Rightarrow> rect \<Rightarrow> app \<Rightarrow> app" where
  "handleSliderMove clientX r s =
     setSliderPosition (percentage_of (clientX - rect_left r) (rect_width r)) s"

text \<open>
  \<open>showResult(imageData)\<close>. The argument is \<open>processedImages[i]\<close> at some call sites,
  which is \<open>undefined\<close> out of range: then reading \<open>imageData.original\<close> throws after the
  first two statements, and the listener that called stops there.
\<close>

definition showResult :: "imageData \<Rightarrow> app \<Rightarrow> app" where
  "showResult d s =
     (setSliderPosition (Fin 50)
        ((hideProcessing s)\<lparr>uploadZoneDisplay := DisplayNone,
           originalSrc := Some (original d), resultSrc := Some (result d)\<rparr>))
     \<lparr>resultActive := True\<rparr>"

definition updateQueue :: "app \<Rightarrow> app" where
  "updateQueue s =
     (if length (processedImages s) \<le> 1 then s\<lparr>queueActive := False\<rparr>
      else s\<lparr>queueActive := True, queueItems := length (processedImages s)\<rparr>)"

text \<open>
  The two statements \<open>showResult(processedImages[currentImageIndex]); updateQueue()\<close>
  shared by the queue items and the arrow keys.
\<close>

definition showCurrent :: "app \<Rightarrow> app" where
  "showCurrent s =
     (if 0 \<le> currentImageIndex s \<and> currentImageIndex s < int (length (processedImages s))
      then updateQueue (showResult (processedImages s ! nat (currentImageIndex s)) s)
      else (hideProcessing s)\<lparr>uploadZoneDisplay := DisplayNone\<rparr>)"

section \<open>Validation gate\<close>

definition validTypes :: "string list" where
  "validTypes = [''image/jpeg'', ''image/png'', ''image/webp'']"

definition maxSize :: nat where
  "maxSize = 10 * 1024 * 1024"

definition typeError :: string where
  "typeError = ''Please upload JPG, PNG, or WebP images only.''"

definition sizeError :: string where
  "sizeError = ''Image size must be less than 10MB.''"

text \<open>The callback of \<open>files.filter\<close> in \<open>handleFiles\<close>: its verdict and its effect.\<close>

definition checkFile :: "jsfile \<Rightarrow> app \<Rightarrow> bool \<times> app" where
  "checkFile f s =
     (if file_type f \<notin> set validTypes then (False, showError typeError s)
      else if maxSize < file_size f then (False, showError sizeError s)
      else (True, s))"

fun filterFiles :: "jsfile list \<Rightarrow> app \<Rightarrow> jsfile list \<times> app" where
  "filterFiles [] s = ([], s)"
| "filterFiles (f # fs) s =
     (case checkFile f s of (ok, s1) \<Rightarrow>
        (case filterFiles fs s1 of (vs, s2) \<Rightarrow> (if ok then f # vs else vs, s2)))"

section \<open>Processing pipeline\<close>

text \<open>
  \<open>file.name.replace(/\.[^/.]+$/, '')\<close>. The pattern is a dot, then one or more
  characters other than \<open>/\<close> and \<open>.\<close>, then the end of the input. \<open>replace\<close> with a
  pattern that has no \<open>g\<close> flag takes the leftmost position where the pattern matches;
  the match reaches the end of the input, so what is left is the text before it.
\<close>

definition isExtChar :: "char \<Rightarrow> bool" where
  "isExtChar c = (c \<noteq> CHR ''/'' \<and> c \<noteq> CHR ''.'')"

fun matchesAt :: "string \<Rightarrow> bool" where
  "matchesAt [] = False"
| "matchesAt (c # cs) = (c = CHR ''.'' \<and> cs \<noteq> [] \<and> list_all isExtChar cs)"

fun replaceExt :: "string \<Rightarrow> string" where
  "replaceExt [] = []"
| "replaceExt (c # cs) = (if matchesAt (c # cs) then [] else c # replaceExt cs)"

definition suggestedName :: "string \<Rightarrow> string" where
  "suggestedName n = replaceExt n @ ''_nobg.png''"

definition fallbackError :: string where
  "fallbackError = ''Failed to process image. Please try again.''"

definition loadErrorPrefix :: string where
  "loadErrorPrefix = ''Failed to load background removal model: ''"

text \<open>
  The \<open>catch\<close> clause of \<open>initializeModel\<close>: a new \<open>Error\<close> whose message is the prefix
  concatenated with \<open>error.message\<close>; an undefined message is printed as \<open>undefined\<close>.
\<close>

definition loadError :: "js_error \<Rightarrow> js_error" where
  "loadError e =
     JsError (Some (loadErrorPrefix @ (case message e of Some m \<Rightarrow> m | None \<Rightarrow> ''undefined'')))"

text \<open>\<open>error.message || 'Failed to process image. Please try again.'\<close>\<close>

definition shownMessage :: "js_error \<Rightarrow> string" where
  "shownMessage e =
     (case message e of Some m \<Rightarrow> (if m = [] then fallbackError else m) | None \<Rightarrow> fallbackError)"

text \<open>The \<open>catch\<close> clause of \<open>processImage\<close>.\<close>

definition catchError :: "js_error \<Rightarrow> app \<Rightarrow> app" where
  "catchError e s = showUpload (hideProcessing (showError (shownMessage e) s))"

text \<open>
  \<open>processImage(file)\<close> from its first statement to its first \<open>await\<close>:
  \<open>showProcessing\<close>, \<open>hideError\<close>, and the call of \<open>initializeModel\<close>, which returns at
  once when \<open>removeBackgroundFn\<close> is set and starts the dynamic \<open>import\<close> otherwise.
  Either way \<open>processImage\<close> is suspended and control goes back to its caller.
\<close>

definition startProcess :: "jsfile \<Rightarrow> jsfile list \<Rightarrow> app \<Rightarrow> app" where
  "startProcess f rest s =
     (hideError (showProcessing s))
       \<lparr>tasks := tasks s @
          [\<lparr>tid = nextTid s, tfile = f,
            twait = (if removeBackgroundFn s then Ready else AwaitImport), trest = rest\<rparr>],
        nextTid := Suc (nextTid s)\<rparr>"

text \<open>
  The queued continuations, run in order once the current listener or callback has
  ended: each \<open>processImage\<close> whose \<open>initializeModel\<close> is fulfilled creates the object URL
  of its file, calls \<open>removeBackgroundFn(file, config)\<close> and is suspended again.
\<close>

definition runMicrotasks :: "app \<Rightarrow> app" where
  "runMicrotasks s =
     s\<lparr>tasks :=
         map (\<lambda>t. if twait t = Ready then t\<lparr>twait := AwaitInference (FileURL (tfile t))\<rparr> else t)
           (tasks s),
       calls := calls s @ map (\<lambda>t. (tid t, tfile t)) (filter (\<lambda>t. twait t = Ready) (tasks s))\<rparr>"

text \<open>
  A call of \<open>processImage\<close> returns. If the loop of \<open>processRemainingFiles\<close> awaits it,
  the loop goes on with its next file.
\<close>

definition returnFrom :: "task \<Rightarrow> app \<Rightarrow> app" where
  "returnFrom t s =
     (case trest t of
        [] \<Rightarrow> s\<lparr>tasks := filter (\<lambda>u. tid u \<noteq> tid t) (tasks s)\<rparr>
      | f # fs \<Rightarrow> startProcess f fs (s\<lparr>tasks := filter (\<lambda>u. tid u \<noteq> tid t) (tasks s)\<rparr>))"

text \<open>
  \<open>processImage\<close> after \<open>removeBackgroundFn\<close> has returned \<open>resultBlob\<close>: the record is
  pushed, the cursor set to the last index, the result shown.
\<close>

definition newImageData :: "task \<Rightarrow> objurl \<Rightarrow> blob \<Rightarrow> imageData" where
  "newImageData t u b =
     \<lparr>original = u, result = BlobURL b, resultBlob = b,
      name = suggestedName (file_name (tfile t))\<rparr>"

definition storeResult :: "task \<Rightarrow> objurl \<Rightarrow> blob \<Rightarrow> app \<Rightarrow> app" where
  "storeResult t u b s =
     updateQueue (showResult (newImageData t u b)
       (s\<lparr>processedImages := processedImages s @ [newImageData t u b],
          currentImageIndex := int (length (processedImages s @ [newImageData t u b])) - 1\<rparr>))"

text \<open>
  \<open>handleFiles\<close>: the filter, then \<open>processImage(validFiles[0])\<close>, which is not awaited,
  then \<open>processRemainingFiles(validFiles.slice(1))\<close>, whose loop calls \<open>processImage\<close> on
  its first file before \<open>handleFiles\<close> returns.
\<close>

definition handleFiles :: "jsfile list \<Rightarrow> app \<Rightarrow> app" where
  "handleFiles files s =
     (case filterFiles files s of
        (validFiles, s1) \<Rightarrow>
          (case validFiles of
             [] \<Rightarrow> s1
           | f # rest \<Rightarrow>
               (case rest of
                  [] \<Rightarrow> startProcess f [] s1
                | g # others \<Rightarrow> startProcess g others (startProcess f [] s1))))"

section \<open>Listeners\<close>

definition download :: "app \<Rightarrow> app" where
  "download s =
     (if 0 \<le> currentImageIndex s \<and> currentImageIndex s < int (length (processedImages s))
      then s\<lparr>downloads := downloads s @
              [(result (processedImages s ! nat (currentImageIndex s)),
                name (processedImages s ! nat (currentImageIndex s)))]\<rparr>
      else s)"

definition newImage :: "app \<Rightarrow> app" where
  "newImage s = hideError (showUpload s)"

definition keydown :: "string \<Rightarrow> app \<Rightarrow> app" where
  "keydown key s =
     (if resultActive s then
        (if key = ''ArrowLeft'' \<and> 0 < currentImageIndex s
         then showCurrent (s\<lparr>currentImageIndex := currentImageIndex s - 1\<rparr>)
         else if key = ''ArrowRight'' \<and>
                 currentImageIndex s < int (length (processedImages s)) - 1
         then showCurrent (s\<lparr>currentImageIndex := currentImageIndex s + 1\<rparr>)
         else if key = ''d'' \<or> key = ''D'' then download s
         else if key = ''n'' \<or> key = ''N'' then newImage s
         else s)
      else s)"

text \<open>
  What the environment can do to the page: a drop on the upload zone, a change of the file
  input, the settling of a promise a call of \<open>processImage\<close> waits for (named by the
  call's number), a key, a click on the item of the queue list with a given index, on
  the download button or on the new-image button, and the pointer events of the slider,
  which carry the bounding box read by \<open>getBoundingClientRect\<close>. The last argument of
  \<open>ComparisonClick\<close> says whether the target is the slider line or inside it.
\<close>

datatype 'a settled = Fulfilled 'a | Rejected js_error

datatype event =
    Drop "jsfile list"
  | Change "jsfile list"
  | ImportSettled nat "unit settled"
  | InferenceSettled nat "blob settled"
  | KeyDown string
  | QueueItemClick nat
  | DownloadClick
  | NewImageClick
  | SliderMouseDown
  | MouseMove real rect
  | MouseUp
  | SliderTouchStart
  | TouchMove "real list" rect
  | TouchEnd
  | ComparisonClick real rect bool

definition awaiting :: "nat \<Rightarrow> app \<Rightarrow> task option" where
  "awaiting k s = find (\<lambda>t. tid t = k) (tasks s)"

fun step :: "app \<Rightarrow> event \<Rightarrow> app" where
  "step s (Drop fs) =
     (if filter (\<lambda>f. prefix ''image/'' (file_type f)) fs \<noteq> []
      then runMicrotasks (handleFiles (filter (\<lambda>f. prefix ''image/'' (file_type f)) fs) s)
      else s)"
| "step s (Change fs) = (if fs \<noteq> [] then runMicrotasks (handleFiles fs s) else s)"
| "step s (ImportSettled k r) =
     (case awaiting k s of
        None \<Rightarrow> s
      | Some t \<Rightarrow>
          (if twait t = AwaitImport then
             (case r of
                Fulfilled _ \<Rightarrow>
                  runMicrotasks
                    (s\<lparr>removeBackgroundFn := True, modelLoaded := True,
                       tasks := map (\<lambda>u. if tid u = k then u\<lparr>twait := Ready\<rparr> else u) (tasks s)\<rparr>)
              | Rejected e \<Rightarrow> runMicrotasks (returnFrom t (catchError (loadError e) s)))
           else s))"
| "step s (InferenceSettled k r) =
     (case awaiting k s of
        None \<Rightarrow> s
      | Some t \<Rightarrow>
          (case twait t of
             AwaitInference u \<Rightarrow>
               (case r of
                  Fulfilled b \<Rightarrow> runMicrotasks (returnFrom t (storeResult t u b s))
                | Rejected e \<Rightarrow> runMicrotasks (returnFrom t (catchError e s)))
           | _ \<Rightarrow> s))"
| "step s (KeyDown key) = keydown key s"
| "step s (QueueItemClick i) =
     (if i < queueItems s then showCurrent (s\<lparr>currentImageIndex := int i\<rparr>) else s)"
| "step s DownloadClick = download s"
| "step s NewImageClick = newImage s"
| "step s SliderMouseDown = s\<lparr>isDragging := True\<rparr>"
| "step s (MouseMove clientX r) = (if isDragging s then handleSliderMove clientX r s else s)"
| "step s MouseUp = s\<lparr>isDragging := False\<rparr>"
| "step s SliderTouchStart = s\<lparr>isDragging := True\<rparr>"
| "step s (TouchMove touches r) =
     (if isDragging s \<and> length touches = 1 then handleSliderMove (hd touches) r s else s)"
| "step s TouchEnd = s\<lparr>isDragging := False\<rparr>"
| "step s (ComparisonClick clientX r onSlider) =
     (if \<not> onSlider then handleSliderMove clientX r s else s)"

definition exec :: "event list \<Rightarrow> app" where
  "exec evs = foldl step init evs"

section \<open>Asset fetcher (src/scripts/download-models.js)\<close>

text \<open>
  What \<open>fetch(url)\<close> gives: a rejection (of \<open>fetch\<close> itself or of the reading of the
  body) with a message, or a response with its \<open>ok\<close> flag, its status text and the byte
  length of its body.
\<close>

datatype response = NetworkError string | Response bool string nat

text \<open>
  The environment of one run of the script:
  \<^item> the version read from the installed package (\<open>None\<close> when reading or parsing
    \<open>package.json\<close> throws);
  \<^item> the path \<open>PUBLIC_DIR\<close>, and three functions of Node's \<open>path\<close> and \<open>fs\<close> modules
    that the script relies on: \<open>joinPublic name\<close> is the value of
    \<open>join(PUBLIC_DIR, name)\<close>, normalised as \<open>path.join\<close> does it; \<open>dirname\<close>;
    and \<open>ancestors dir\<close>, the directories above \<open>dir\<close>, which
    \<open>mkdirSync(dir, {recursive: true})\<close> creates with it;
  \<^item> the paths for which \<open>existsSync\<close> is true when the run starts;
  \<^item> the calls of \<open>mkdirSync\<close> and of \<open>writeFileSync\<close> that throw, with their message
    (a call that throws is taken to create nothing);
  \<^item> the network;
  \<^item> what \<open>main\<close> reads back from the manifest written (\<open>None\<close> when reading or
    parsing it, or walking its entries, throws; otherwise the entries in order, each
    with the hashes of its \<open>chunks\<close>, or \<open>None\<close> when it has no \<open>chunks\<close>).
\<close>

type_synonym manifest = "(string \<times> string list option) list"

record env =
  packageVersion :: "string option"
  publicDir :: string
  joinPublic :: "string \<Rightarrow> string"
  dirname :: "string \<Rightarrow> string"
  ancestors :: "string \<Rightarrow> string list"
  present :: "string \<Rightarrow> bool"
  mkdirThrows :: "string \<Rightarrow> string option"
  writeThrows :: "string \<Rightarrow> string option"
  fetch :: "string \<Rightarrow> response"
  parsedManifest :: "manifest option"

text \<open>
  The state of a run: the paths created so far, the URLs passed to \<open>fetch\<close> in order,
  the four counters of \<open>main\<close>, and the failures written with \<open>console.error\<close> (the
  first sixteen characters of the name, and the message).
\<close>

record fetcher =
  files :: "string list"
  fetched :: "string list"
  downloaded :: nat
  skipped :: nat
  failed :: nat
  totalBytes :: nat
  errorLog :: "(string \<times> string) list"

definition getBaseUrl :: "string \<Rightarrow> string" where
  "getBaseUrl version =
     ''https://staticimgly.com/@imgly/background-removal-data/'' @ version @ ''/dist''"

text \<open>\<open>existsSync(path)\<close>: the path was there at the start, or the run has created it.\<close>

definition existsSync :: "env \<Rightarrow> fetcher \<Rightarrow> string \<Rightarrow> bool" where
  "existsSync e st path = (present e path \<or> path \<in> set (files st))"

text \<open>
  \<open>if (!existsSync(dir)) { mkdirSync(dir, { recursive: true }); }\<close>, as it stands in
  \<open>downloadFile\<close> and in \<open>main\<close>: the message when \<open>mkdirSync\<close> throws, the new state
  otherwise.
\<close>

definition ensureDir :: "env \<Rightarrow> string \<Rightarrow> fetcher \<Rightarrow> string + fetcher" where
  "ensureDir e dir st =
     (if existsSync e st dir then Inr st
      else (case mkdirThrows e dir of
              Some m \<Rightarrow> Inl m
            | None \<Rightarrow> Inr (st\<lparr>files := dir # ancestors e dir @ files st\<rparr>)))"

definition downloadFile :: "env \<Rightarrow> string \<Rightarrow> string \<Rightarrow> fetcher \<Rightarrow> (string + nat) \<times> fetcher" where
  "downloadFile e url destPath st =
     (case fetch e url of
        NetworkError m \<Rightarrow> (Inl m, st\<lparr>fetched := fetched st @ [url]\<rparr>)
      | Response ok statusText n \<Rightarrow>
          (if \<not> ok
           then (Inl (''Failed to download '' @ url @ '': '' @ statusText),
                 st\<lparr>fetched := fetched st @ [url]\<rparr>)
           else (case ensureDir e (dirname e destPath) (st\<lparr>fetched := fetched st @ [url]\<rparr>) of
                   Inl m \<Rightarrow> (Inl m, st\<lparr>fetched := fetched st @ [url]\<rparr>)
                 | Inr st1 \<Rightarrow>
                     (case writeThrows e destPath of
                        Some m \<Rightarrow> (Inl m, st1)
                      | None \<Rightarrow> (Inr n, st1\<lparr>files := destPath # files st1\<rparr>)))))"

text \<open>\<open>allChunks.add(chunk.hash)\<close> on a \<open>Set\<close>, which keeps the order of first insertion.\<close>

definition setAdd :: "string list \<Rightarrow> string \<Rightarrow> string list" where
  "setAdd xs h = (if h \<in> set xs then xs else xs @ [h])"

definition allChunks :: "manifest \<Rightarrow> string list" where
  "allChunks m =
     foldl (\<lambda>acc entry. case snd entry of None \<Rightarrow> acc | Some hs \<Rightarrow> foldl setAdd acc hs) [] m"

definition chunkUrl :: "string \<Rightarrow> string \<Rightarrow> string" where
  "chunkUrl baseUrl h = baseUrl @ ''/'' @ h"

text \<open>
  The \<open>for\<close> loop over \<open>allChunks\<close>: the chunk is skipped when
  \<open>existsSync(join(PUBLIC_DIR, hash))\<close>, and downloaded to that path otherwise.
\<close>

fun chunkLoop :: "env \<Rightarrow> string \<Rightarrow> string list \<Rightarrow> fetcher \<Rightarrow> fetcher" where
  "chunkLoop e baseUrl [] st = st"
| "chunkLoop e baseUrl (h # hs) st =
     chunkLoop e baseUrl hs
       (if existsSync e st (joinPublic e h) then st\<lparr>skipped := skipped st + 1\<rparr>
        else (case downloadFile e (chunkUrl baseUrl h) (joinPublic e h) st of
                (Inr n, st1) \<Rightarrow>
                  st1\<lparr>totalBytes := totalBytes st1 + n, downloaded := downloaded st1 + 1\<rparr>
              | (Inl m, st1) \<Rightarrow>
                  st1\<lparr>failed := failed st1 + 1, errorLog := errorLog st1 @ [(take 16 h, m)]\<rparr>))"

definition start :: fetcher where
  "start = \<lparr>files = [], fetched = [], downloaded = 0, skipped = 0, failed = 0,
     totalBytes = 0, errorLog = []\<rparr>"

text \<open>
  \<open>main\<close> with the handler of its rejection: the exit code of the process and the final
  state. \<open>process.exit(1)\<close> ends the run where it stands; a run that reaches the end of
  \<open>main\<close> exits with code 0.
\<close>

definition main :: "env \<Rightarrow> nat \<times> fetcher" where
  "main e =
     (case packageVersion e of
        None \<Rightarrow> (1, start)
      | Some version \<Rightarrow>
          (case ensureDir e (publicDir e) start of
             Inl m \<Rightarrow> (1, start)
           | Inr st0 \<Rightarrow>
               (case downloadFile e (getBaseUrl version @ ''/resources.json'')
                       (joinPublic e ''resources.json'') st0 of
                  (Inl m, st1) \<Rightarrow>
                    (1, st1\<lparr>errorLog := errorLog st1 @ [(''resources.json'', m)]\<rparr>)
                | (Inr n, st1) \<Rightarrow>
                    (case parsedManifest e of
                       None \<Rightarrow> (1, st1)
                     | Some m \<Rightarrow> (0, chunkLoop e (getBaseUrl version) (allChunks m) st1)))))"

section \<open>Notions used in the statements\<close>

text \<open>
  The verdict of the validation gate on one file, and the message it passes to
  \<open>showError\<close> for a file it rejects.
\<close>

definition accepted :: "jsfile \<Rightarrow> bool" where
  "accepted f = (file_type f \<in> set validTypes \<and> file_size f \<le> maxSize)"

definition rejection :: "jsfile \<Rightarrow> string" where
  "rejection f = (if file_type f \<notin> set validTypes then typeError else sizeError)"

text \<open>
  The files in the pipeline: those a call of \<open>processImage\<close> is working on, each followed
  by the files its loop will take next.
\<close>

definition submitted :: "app \<Rightarrow> jsfile list" where
  "submitted s = concat (map (\<lambda>t. tfile t # trest t) (tasks s))"

text \<open>The files that have entered the pipeline between two states.\<close>

definition entered :: "app \<Rightarrow> app \<Rightarrow> jsfile list" where
  "entered s s' = drop (length (submitted s)) (submitted s')"

text \<open>The messages passed to \<open>showError\<close> between two states.\<close>

definition emitted :: "app \<Rightarrow> app \<Rightarrow> string list" where
  "emitted s s' = drop (length (errorsShown s)) (errorsShown s')"

definition showErrors :: "string list \<Rightarrow> app \<Rightarrow> app" where
  "showErrors ms s = foldl (\<lambda>s m. showError m s) s ms"

text \<open>The calls of \<open>removeBackgroundFn\<close> that have not settled yet, by number.\<close>

definition inFlight :: "app \<Rightarrow> nat list" where
  "inFlight s =
     map tid (filter (\<lambda>t. case twait t of AwaitInference u \<Rightarrow> True | _ \<Rightarrow> False) (tasks s))"

text \<open>
  The cursor is \<open>-1\<close> on an empty queue and an index of the queue otherwise. The listeners
  of the queue items keep the index they were created with, so the invariant of the page
  also says that no item is rendered beyond the queue.
\<close>

definition cursor_ok :: "app \<Rightarrow> bool" where
  "cursor_ok s =
     (if processedImages s = [] then currentImageIndex s = - 1
      else 0 \<le> currentImageIndex s \<and> currentImageIndex s < int (length (processedImages s)))"

definition app_inv :: "app \<Rightarrow> bool" where
  "app_inv s = (cursor_ok s \<and> queueItems s \<le> length (processedImages s))"

text \<open>Sample files and runs.\<close>

definition sample_pdf :: jsfile where
  "sample_pdf = \<lparr>file_name = ''notes.pdf'', file_type = ''application/pdf'', file_size = 2048\<rparr>"

definition sample_gif :: jsfile where
  "sample_gif = \<lparr>file_name = ''anim.gif'', file_type = ''image/gif'', file_size = 2048\<rparr>"

definition photo_a :: jsfile where
  "photo_a = \<lparr>file_name = ''a.jpg'', file_type = ''image/jpeg'', file_size = 2000000\<rparr>"

definition photo_b :: jsfile where
  "photo_b = \<lparr>file_name = ''b.tar.png'', file_type = ''image/png'', file_size = 10485760\<rparr>"

definition scan :: jsfile where
  "scan = \<lparr>file_name = ''scan'', file_type = ''image/webp'', file_size = 5\<rparr>"

definition big_png :: jsfile where
  "big_png = \<lparr>file_name = ''big.png'', file_type = ''image/png'', file_size = 12582912\<rparr>"

text \<open>
  Two files chosen in the file input of a fresh page, then the two dynamic imports
  fulfilled.
\<close>

definition two_files :: "event list" where
  "two_files =
     [Change [photo_a, photo_b], ImportSettled 0 (Fulfilled ()), ImportSettled 1 (Fulfilled ())]"

text \<open>
  The same, then the two inference calls fulfilled: in the order of the calls, and in
  the opposite order.
\<close>

definition in_order :: "event list" where
  "in_order = two_files @ [InferenceSettled 0 (Fulfilled [1]), InferenceSettled 1 (Fulfilled [2])]"

definition out_of_order :: "event list" where
  "out_of_order = two_files @ [InferenceSettled 1 (Fulfilled [2]), InferenceSettled 0 (Fulfilled [1])]"

text \<open>The result view shows a given record; the upload view; a displayed error.\<close>

definition displays :: "app \<Rightarrow> imageData \<Rightarrow> bool" where
  "displays s d =
     (resultActive s \<and> originalSrc s = Some (original d) \<and> resultSrc s = Some (result d))"

definition upload_view :: "app \<Rightarrow> bool" where
  "upload_view s =
     (uploadZoneDisplay s = DisplayBlock \<and> \<not> resultActive s \<and> \<not> processingActive s)"

definition error_shown :: "string \<Rightarrow> app \<Rightarrow> bool" where
  "error_shown m s = (errorActive s \<and> errorText s = m)"

text \<open>
  Three files chosen in the file input of a fresh page, then the two dynamic imports
  fulfilled: the first two calls are in flight and the third file waits behind the
  second call.
\<close>

definition three_files :: "event list" where
  "three_files =
     [Change [photo_a, photo_b, scan], ImportSettled 0 (Fulfilled ()),
      ImportSettled 1 (Fulfilled ())]"

text \<open>
  The URL of the manifest, and the body of the loop over the chunks, for one chunk.
\<close>

definition resourcesUrl :: "string \<Rightarrow> string" where
  "resourcesUrl version = getBaseUrl version @ ''/resources.json''"

definition chunkStep :: "env \<Rightarrow> string \<Rightarrow> string \<Rightarrow> fetcher \<Rightarrow> fetcher" where
  "chunkStep e baseUrl h st =
     (if existsSync e st (joinPublic e h) then st\<lparr>skipped := skipped st + 1\<rparr>
      else (case downloadFile e (chunkUrl baseUrl h) (joinPublic e h) st of
              (Inr n, st1) \<Rightarrow>
                st1\<lparr>totalBytes := totalBytes st1 + n, downloaded := downloaded st1 + 1\<rparr>
            | (Inl m, st1) \<Rightarrow>
                st1\<lparr>failed := failed st1 + 1, errorLog := errorLog st1 @ [(take 16 h, m)]\<rparr>))"

text \<open>
  The chunks that the loop does not skip, in order: those whose path does not exist
  when their turn comes.
\<close>

fun attempted :: "env \<Rightarrow> string \<Rightarrow> string list \<Rightarrow> fetcher \<Rightarrow> string list" where
  "attempted e baseUrl [] st = []"
| "attempted e baseUrl (h # hs) st =
     (if existsSync e st (joinPublic e h) then [] else [h])
     @ attempted e baseUrl hs (chunkStep e baseUrl h st)"

text \<open>
  The names are plain file names: \<open>join(PUBLIC_DIR, name)\<close> is a different path for each
  of them, directly in the target directory. (A content hash is such a name; \<open>''\<close>,
  \<open>.\<close> or a name with a separator is not.)
\<close>

definition plainNames :: "env \<Rightarrow> string list \<Rightarrow> bool" where
  "plainNames e ns =
     (distinct (map (joinPublic e) (remdups ns))
      \<and> list_all (\<lambda>n. dirname e (joinPublic e n) = publicDir e) ns)"

text \<open>
  Whether \<open>downloadFile\<close> throws for a URL and a destination whose directory exists;
  the chunks of a manifest whose path does not exist in a state, and those of them
  whose download fails.
\<close>

definition downloadFails :: "env \<Rightarrow> string \<Rightarrow> string \<Rightarrow> bool" where
  "downloadFails e url destPath =
     (case fetch e url of
        NetworkError m \<Rightarrow> True
      | Response ok statusText n \<Rightarrow> (if ok then writeThrows e destPath \<noteq> None else True))"

definition missing :: "env \<Rightarrow> fetcher \<Rightarrow> manifest \<Rightarrow> string list" where
  "missing e st m = filter (\<lambda>h. \<not> existsSync e st (joinPublic e h)) (allChunks m)"

definition failing :: "env \<Rightarrow> string \<Rightarrow> fetcher \<Rightarrow> manifest \<Rightarrow> string list" where
  "failing e version st m =
     filter (\<lambda>h. downloadFails e (chunkUrl (getBaseUrl version) h) (joinPublic e h))
       (missing e st m)"

text \<open>
  A sample environment: version 1.4.5, the target directory \<open>/app/public/models\<close>
  already there with one chunk in it, POSIX paths, a manifest of three resources naming
  four distinct chunks; of the three chunks that are not there one is answered with
  status 404, one is delivered and one meets a network error. And the same environment
  with the network down for every URL.
\<close>

definition sample_manifest :: manifest where
  "sample_manifest =
     [(''/models/small'', Some [''aaa'', ''bbb'']),
      (''/models/medium'', Some [''bbb'', ''ccc'', ''ddd'']),
      (''/onnx/wasm'', None)]"

definition sample_env :: env where
  "sample_env =
     \<lparr>packageVersion = Some ''1.4.5'',
      publicDir = ''/app/public/models'',
      joinPublic = (\<lambda>n. ''/app/public/models/'' @ n),
      dirname = (\<lambda>p. rev (tl (dropWhile (\<lambda>c. c \<noteq> CHR ''/'') (rev p)))),
      ancestors = (\<lambda>p. map (\<lambda>i. if i = 0 then ''/'' else take i p)
                         (rev (filter (\<lambda>i. p ! i = CHR ''/'') [0..<length p]))),
      present = (\<lambda>p. p \<in> set [''/'', ''/app'', ''/app/public'', ''/app/public/models'',
                                ''/app/public/models/ccc'']),
      mkdirThrows = (\<lambda>p. None),
      writeThrows = (\<lambda>p. None),
      fetch = (\<lambda>url.
        if url = resourcesUrl ''1.4.5'' then Response True ''OK'' 300
        else if url = chunkUrl (getBaseUrl ''1.4.5'') ''aaa'' then Response False ''Not Found'' 0
        else if url = chunkUrl (getBaseUrl ''1.4.5'') ''bbb'' then Response True ''OK'' 1000
        else NetworkError ''fetch failed''),
      parsedManifest = Some sample_manifest\<rparr>"

definition offline_env :: env where
  "offline_env = sample_env\<lparr>fetch := (\<lambda>url. NetworkError ''fetch failed'')\<rparr>"

text \<open>The state of the sample run once the manifest is written.\<close>

definition sample_written :: fetcher where
  "sample_written = start\<lparr>fetched := [resourcesUrl ''1.4.5''],
     files := [''/app/public/models/resources.json'']\<rparr>"

section \<open>Evaluation on concrete inputs\<close>

lemmas sample_defs = sample_pdf_def sample_gif_def photo_a_def photo_b_def big_png_def scan_def

lemmas gate_defs = accepted_def rejection_def validTypes_def maxSize_def typeError_def sizeError_def

lemmas ui_defs = init_def handleFiles_def checkFile_def validTypes_def maxSize_def
  typeError_def sizeError_def startProcess_def runMicrotasks_def returnFrom_def storeResult_def
  newImageData_def suggestedName_def isExtChar_def catchError_def shownMessage_def loadError_def
  showProcessing_def hideProcessing_def showUpload_def showError_def hideError_def showResult_def
  setSliderPosition_def updateQueue_def showCurrent_def download_def newImage_def keydown_def
  awaiting_def handleSliderMove_def percentage_of_def fallbackError_def loadErrorPrefix_def

lemmas app_defs = exec_def ui_defs

lemma exec_Nil: "exec [] = init"
  by (simp add: exec_def)

lemma exec_snoc: "exec (evs @ [ev]) = step (exec evs) ev"
  by (simp add: exec_def)

section \<open>The validation gate\<close>

lemma checkFile_eq:
  "checkFile f s = (accepted f, if accepted f then s else showError (rejection f) s)"
  by (simp add: checkFile_def accepted_def rejection_def not_less)

lemma filterFiles_eq:
  "filterFiles fs s = (filter accepted fs, showErrors (map rejection (filter (\<lambda>f. \<not> accepted f) fs)) s)"
  by (induction fs arbitrary: s) (simp_all add: checkFile_eq showErrors_def)

lemma showErrors_fields [simp]:
  "tasks (showErrors ms s) = tasks s"
  "nextTid (showErrors ms s) = nextTid s"
  "removeBackgroundFn (showErrors ms s) = removeBackgroundFn s"
  "processedImages (showErrors ms s) = processedImages s"
  "currentImageIndex (showErrors ms s) = currentImageIndex s"
  "queueItems (showErrors ms s) = queueItems s"
  "errorsShown (showErrors ms s) = errorsShown s @ ms"
  by (induction ms arbitrary: s) (simp_all add: showErrors_def showError_def)

lemma showErrors_active: "ms \<noteq> [] \<Longrightarrow> errorActive (showErrors ms s) \<and> errorText (showErrors ms s) = last ms"
  by (induction ms arbitrary: s) (auto simp add: showErrors_def showError_def)

lemma startProcess_fields [simp]:
  "tasks (startProcess f rest s) = tasks s @ [\<lparr>tid = nextTid s, tfile = f,
      twait = (if removeBackgroundFn s then Ready else AwaitImport), trest = rest\<rparr>]"
  "nextTid (startProcess f rest s) = Suc (nextTid s)"
  "removeBackgroundFn (startProcess f rest s) = removeBackgroundFn s"
  "processedImages (startProcess f rest s) = processedImages s"
  "currentImageIndex (startProcess f rest s) = currentImageIndex s"
  "queueItems (startProcess f rest s) = queueItems s"
  "errorsShown (startProcess f rest s) = errorsShown s"
  by (simp_all add: startProcess_def hideError_def showProcessing_def)

lemma runMicrotasks_fields [simp]:
  "processedImages (runMicrotasks s) = processedImages s"
  "currentImageIndex (runMicrotasks s) = currentImageIndex s"
  "queueItems (runMicrotasks s) = queueItems s"
  "errorsShown (runMicrotasks s) = errorsShown s"
  "errorActive (runMicrotasks s) = errorActive s"
  "errorText (runMicrotasks s) = errorText s"
  "uploadZoneDisplay (runMicrotasks s) = uploadZoneDisplay s"
  "resultActive (runMicrotasks s) = resultActive s"
  "processingActive (runMicrotasks s) = processingActive s"
  "downloads (runMicrotasks s) = downloads s"
  by (simp_all add: runMicrotasks_def)

lemma submitted_runMicrotasks [simp]: "submitted (runMicrotasks s) = submitted s"
  by (simp add: submitted_def runMicrotasks_def comp_def if_distrib cong: if_cong)

lemma submitted_startProcess [simp]:
  "submitted (startProcess f rest s) = submitted s @ f # rest"
  by (simp add: submitted_def)

lemma handleFiles_fields [simp]:
  "processedImages (handleFiles fs s) = processedImages s"
  "currentImageIndex (handleFiles fs s) = currentImageIndex s"
  "queueItems (handleFiles fs s) = queueItems s"
  "errorsShown (handleFiles fs s) = errorsShown s @ map rejection (filter (\<lambda>f. \<not> accepted f) fs)"
  by (simp_all add: handleFiles_def filterFiles_eq split: list.splits)

lemma submitted_handleFiles [simp]:
  "submitted (handleFiles fs s) = submitted s @ filter accepted fs"
  by (simp add: handleFiles_def filterFiles_eq submitted_def split: list.splits)

lemma handleFiles_none:
  "filter accepted fs = [] \<Longrightarrow> handleFiles fs s = showErrors (map rejection (filter (\<lambda>f. \<not> accepted f) fs)) s"
  by (simp add: handleFiles_def filterFiles_eq)

lemma accepted_image: "accepted f \<Longrightarrow> prefix ''image/'' (file_type f)"
  by (auto simp add: accepted_def validTypes_def)

lemma image_and_accepted [simp]:
  "(prefix ''image/'' (file_type x) \<and> accepted x) = accepted x"
  by (auto dest: accepted_image)

lemma step_Change_submitted:
  "submitted (step s (Change fs)) = submitted s @ filter accepted fs"
  by simp

lemma step_Drop_submitted:
  "submitted (step s (Drop fs)) = submitted s @ filter accepted fs"
proof (cases "filter (\<lambda>f. prefix ''image/'' (file_type f)) fs = []")
  case True
  then have "filter accepted (filter (\<lambda>f. prefix ''image/'' (file_type f)) fs) = []"
    by (simp only: filter.simps)
  then have "filter accepted fs = []" by simp
  with True show ?thesis by simp
next
  case False
  then show ?thesis by simp
qed

lemma entered_Change: "entered s (step s (Change fs)) = filter accepted fs"
  by (simp only: entered_def step_Change_submitted) simp

lemma entered_Drop: "entered s (step s (Drop fs)) = filter accepted fs"
  by (simp only: entered_def step_Drop_submitted) simp

lemma emitted_Change:
  "emitted s (step s (Change fs)) = map rejection (filter (\<lambda>f. \<not> accepted f) fs)"
  by (simp add: emitted_def)

lemma emitted_Drop:
  "emitted s (step s (Drop fs)) =
     map rejection (filter (\<lambda>f. \<not> accepted f) (filter (\<lambda>f. prefix ''image/'' (file_type f)) fs))"
  by (cases "filter (\<lambda>f. prefix ''image/'' (file_type f)) fs = []") (simp_all add: emitted_def)

lemma Drop_discards:
  "\<not> prefix ''image/'' (file_type f) \<Longrightarrow> step s (Drop fs) = step s (Drop (removeAll f fs))"
proof -
  assume a: "\<not> prefix ''image/'' (file_type f)"
  have "filter (\<lambda>f. prefix ''image/'' (file_type f)) (removeAll f fs)
      = filter (\<lambda>f. prefix ''image/'' (file_type f)) fs"
    using a by (induction fs) auto
  then show ?thesis by (simp only: step.simps)
qed

lemma Change_rejected_stays:
  "fs \<noteq> [] \<Longrightarrow> filter accepted fs = [] \<Longrightarrow>
     errorActive (step s (Change fs)) \<and> errorText (step s (Change fs)) = rejection (last fs)"
proof -
  assume a: "fs \<noteq> []" "filter accepted fs = []"
  then have b: "filter (\<lambda>f. \<not> accepted f) fs = fs"
    by (simp add: filter_empty_conv)
  show ?thesis using a showErrors_active[of "map rejection fs" s]
    by (simp add: handleFiles_none b last_map)
qed

lemma Drop_rejected_stays:
  assumes "filter (\<lambda>f. prefix ''image/'' (file_type f)) fs \<noteq> []" and "filter accepted fs = []"
  shows "errorActive (step s (Drop fs))
       \<and> errorText (step s (Drop fs))
           = rejection (last (filter (\<lambda>f. prefix ''image/'' (file_type f)) fs))"
proof -
  let ?gs = "filter (\<lambda>f. prefix ''image/'' (file_type f)) fs"
  have a: "filter accepted ?gs = []" using assms(2) by simp
  then have b: "filter (\<lambda>f. \<not> accepted f) ?gs = ?gs"
    by (simp only: filter_empty_conv filter_id_conv)
  show ?thesis
    using assms(1) showErrors_active[of "map rejection ?gs" s]
    by (simp only: step.simps handleFiles_none[OF a] b) (simp add: last_map)
qed

text \<open>
  Claim C2, as amended. A file whose declared media type is not image/jpeg, image/png or
  image/webp never enters the pipeline and creates no record, whatever its size and
  whichever way it arrives. When it comes from the file input, or from a drop with a
  type that starts with \<open>image/\<close>, the gate passes the type message to \<open>showError\<close>
  for it; and when no file of the batch is accepted, the error element is displayed
  after the event with the message of the last file that the gate has rejected: the
  type message if that file is of a type not allowed, the size message otherwise.
  When it comes from a drop with a type that does not start with \<open>image/\<close>,
  the drop listener discards it before validation: the page behaves as if the file had
  not been dropped, and no message is emitted for it.
\<close>

theorem rejected_type_not_processed:
  assumes "f \<in> set fs" and "file_type f \<notin> set validTypes"
  shows "entered s (step s (Change fs)) = filter accepted fs
       \<and> entered s (step s (Drop fs)) = filter accepted fs
       \<and> f \<notin> set (entered s (step s (Change fs)))
       \<and> f \<notin> set (entered s (step s (Drop fs)))
       \<and> processedImages (step s (Change fs)) = processedImages s
       \<and> processedImages (step s (Drop fs)) = processedImages s
       \<and> rejection f = typeError
       \<and> typeError \<in> set (emitted s (step s (Change fs)))
       \<and> (entered s (step s (Change fs)) = [] \<longrightarrow>
             error_shown (rejection (last fs)) (step s (Change fs)))
       \<and> (prefix ''image/'' (file_type f) \<longrightarrow>
             typeError \<in> set (emitted s (step s (Drop fs)))
             \<and> (entered s (step s (Drop fs)) = [] \<longrightarrow>
                   error_shown (rejection (last (filter (\<lambda>g. prefix ''image/'' (file_type g)) fs)))
                     (step s (Drop fs))))
       \<and> (\<not> prefix ''image/'' (file_type f) \<longrightarrow>
             step s (Drop fs) = step s (Drop (removeAll f fs)))"
proof -
  have r: "\<not> accepted f" "rejection f = typeError"
    using assms by (simp_all add: accepted_def rejection_def)
  have a: "f \<notin> set (filter accepted fs)"
    using r by simp
  have b: "processedImages (step s (Change fs)) = processedImages s"
    "processedImages (step s (Drop fs)) = processedImages s"
    by simp_all
  have c: "typeError \<in> set (emitted s (step s (Change fs)))"
    unfolding emitted_Change using assms(1) r by force
  have d: "prefix ''image/'' (file_type f) \<longrightarrow> typeError \<in> set (emitted s (step s (Drop fs)))"
    unfolding emitted_Drop using assms(1) r by force
  have e: "\<not> prefix ''image/'' (file_type f) \<longrightarrow>
             step s (Drop fs) = step s (Drop (removeAll f fs))"
    using Drop_discards[of f s fs] by blast
  have ne: "fs \<noteq> []" using assms(1) by auto
  have g: "filter accepted fs = [] \<longrightarrow> error_shown (rejection (last fs)) (step s (Change fs))"
    using Change_rejected_stays[OF ne, of s] by (simp add: error_shown_def)
  have "prefix ''image/'' (file_type f) \<longrightarrow> filter (\<lambda>f. prefix ''image/'' (file_type f)) fs \<noteq> []"
    using assms(1) by (auto simp add: filter_empty_conv)
  then have h: "prefix ''image/'' (file_type f) \<longrightarrow> filter accepted fs = [] \<longrightarrow>
      error_shown (rejection (last (filter (\<lambda>g. prefix ''image/'' (file_type g)) fs)))
        (step s (Drop fs))"
    using Drop_rejected_stays[of fs s] by (simp add: error_shown_def)
  show ?thesis
    unfolding entered_Change entered_Drop using a b c d e g h r(2) by blast
qed

theorem rejected_type_witness:
  "sample_gif \<in> set [sample_gif, big_png] \<and> file_type sample_gif \<notin> set validTypes
   \<and> prefix ''image/'' (file_type sample_gif)
   \<and> entered init (step init (Change [sample_gif, big_png])) = []
   \<and> entered init (step init (Drop [sample_gif, big_png])) = []
   \<and> error_shown sizeError (step init (Change [sample_gif, big_png]))
   \<and> error_shown sizeError (step init (Drop [sample_gif, big_png]))
   \<and> sample_gif \<in> set [big_png, sample_gif]
   \<and> entered init (step init (Change [big_png, sample_gif])) = []
   \<and> entered init (step init (Drop [big_png, sample_gif])) = []
   \<and> error_shown typeError (step init (Change [big_png, sample_gif]))
   \<and> error_shown typeError (step init (Drop [big_png, sample_gif]))
   \<and> sample_pdf \<in> set [sample_pdf, sample_gif] \<and> file_type sample_pdf \<notin> set validTypes
   \<and> \<not> prefix ''image/'' (file_type sample_pdf)
   \<and> entered init (step init (Change [sample_pdf, sample_gif])) = []
   \<and> error_shown typeError (step init (Change [sample_pdf, sample_gif]))
   \<and> step init (Drop [sample_pdf, sample_gif]) = step init (Drop [sample_gif])"
proof -
  have g: "sample_gif \<in> set [sample_gif, big_png]" "file_type sample_gif \<notin> set validTypes"
    "prefix ''image/'' (file_type sample_gif)" "sample_gif \<in> set [big_png, sample_gif]"
    "prefix ''image/'' (file_type big_png)"
    by (simp_all add: sample_defs gate_defs)
  have p: "sample_pdf \<in> set [sample_pdf, sample_gif]" "file_type sample_pdf \<notin> set validTypes"
    "\<not> prefix ''image/'' (file_type sample_pdf)"
    by (simp_all add: sample_defs gate_defs)
  have n: "sample_pdf \<noteq> sample_gif" "\<not> accepted big_png" "\<not> accepted sample_gif"
    "\<not> accepted sample_pdf" "rejection big_png = sizeError" "rejection sample_gif = typeError"
    by (simp_all add: sample_defs gate_defs)
  show ?thesis
    using g p n rejected_type_not_processed[OF g(1,2), of init]
      rejected_type_not_processed[OF g(4,2), of init]
      rejected_type_not_processed[OF p(1,2), of init]
    by (auto simp del: step.simps)
qed

text \<open>
  The claim as written asks for an error message also when the file is dropped. A PDF
  dropped on a fresh page is not of an allowed type, and the drop changes nothing: no
  message is passed to \<open>showError\<close> and the error element stays hidden.
\<close>

theorem rejected_type_counterexample:
  "sample_pdf \<in> set [sample_pdf] \<and> file_type sample_pdf \<notin> set validTypes
   \<and> step init (Drop [sample_pdf]) = init
   \<and> errorsShown (step init (Drop [sample_pdf])) = []
   \<and> \<not> errorActive (step init (Drop [sample_pdf]))"
  by (simp add: sample_defs gate_defs init_def)

text \<open>
  What the gate does with a file of an allowed type, from the file input and from a
  drop: the file enters the pipeline exactly when its size is at most
  10 * 1024 * 1024 bytes; for a larger file the size message is passed to \<open>showError\<close>,
  and the error element is displayed after the event if no file of the batch is
  accepted.
\<close>

lemma allowed_type_size_limit:
  assumes "f \<in> set fs" and "file_type f \<in> set validTypes"
  shows "maxSize = 10 * 1024 * 1024"
    and "entered s (step s (Change fs)) = filter accepted fs"
    and "entered s (step s (Drop fs)) = filter accepted fs"
    and "f \<in> set (entered s (step s (Change fs))) \<longleftrightarrow> file_size f \<le> maxSize"
    and "f \<in> set (entered s (step s (Drop fs))) \<longleftrightarrow> file_size f \<le> maxSize"
    and "maxSize < file_size f \<Longrightarrow> sizeError \<in> set (emitted s (step s (Change fs)))"
    and "maxSize < file_size f \<Longrightarrow> sizeError \<in> set (emitted s (step s (Drop fs)))"
    and "filter accepted fs = [] \<Longrightarrow> errorActive (step s (Change fs))"
    and "filter accepted fs = [] \<Longrightarrow> errorActive (step s (Drop fs))"
proof -
  have i: "prefix ''image/'' (file_type f)"
    using assms(2) by (auto simp add: validTypes_def)
  have r: "maxSize < file_size f \<Longrightarrow> \<not> accepted f \<and> rejection f = sizeError"
    using assms by (simp add: accepted_def rejection_def)
  show "maxSize = 10 * 1024 * 1024" by (simp add: maxSize_def)
  show "entered s (step s (Change fs)) = filter accepted fs" by (rule entered_Change)
  show "entered s (step s (Drop fs)) = filter accepted fs" by (rule entered_Drop)
  show "f \<in> set (entered s (step s (Change fs))) \<longleftrightarrow> file_size f \<le> maxSize"
    unfolding entered_Change using assms by (simp add: accepted_def)
  show "f \<in> set (entered s (step s (Drop fs))) \<longleftrightarrow> file_size f \<le> maxSize"
    unfolding entered_Drop using assms by (simp add: accepted_def)
  show "maxSize < file_size f \<Longrightarrow> sizeError \<in> set (emitted s (step s (Change fs)))"
    unfolding emitted_Change using assms(1) r by force
  show "maxSize < file_size f \<Longrightarrow> sizeError \<in> set (emitted s (step s (Drop fs)))"
    unfolding emitted_Drop using assms(1) r i by force
  have ne: "fs \<noteq> []" using assms(1) by auto
  show "filter accepted fs = [] \<Longrightarrow> errorActive (step s (Change fs))"
    using Change_rejected_stays[OF ne, of s] by blast
  have "filter (\<lambda>f. prefix ''image/'' (file_type f)) fs \<noteq> []"
    using assms(1) i by (auto simp add: filter_empty_conv)
  then show "filter accepted fs = [] \<Longrightarrow> errorActive (step s (Drop fs))"
    using Drop_rejected_stays[of fs s] by blast
qed

text \<open>
  The first accepted file of a batch starts a call of \<open>processImage\<close>, whose second
  statement is \<open>hideError()\<close>: after the event no error is displayed, whatever the gate
  has shown for the rejected files of the same batch.
\<close>

lemma accepted_hides_error:
  assumes "filter accepted fs \<noteq> []"
  shows "\<not> errorActive (step s (Change fs))" and "\<not> errorActive (step s (Drop fs))"
proof -
  have ne: "fs \<noteq> []" using assms by auto
  have h: "\<And>gs. filter accepted gs \<noteq> [] \<Longrightarrow> \<not> errorActive (handleFiles gs s)"
    by (auto simp add: handleFiles_def filterFiles_eq startProcess_def hideError_def
        split: list.splits)
  show "\<not> errorActive (step s (Change fs))"
    using ne h[OF assms] by simp
  have "filter accepted (filter (\<lambda>f. prefix ''image/'' (file_type f)) fs) \<noteq> []"
    using assms by simp
  then show "\<not> errorActive (step s (Drop fs))"
    using h[of "filter (\<lambda>f. prefix ''image/'' (file_type f)) fs"]
    by (cases "filter (\<lambda>f. prefix ''image/'' (file_type f)) fs = []") auto
qed

text \<open>
  Claim C3, evaluated on the code. A PNG of 12 MiB is chosen, or dropped, together with
  a PNG of exactly 10 MiB on a fresh page. The smaller file is accepted and the larger
  one is not, and the size message is passed to \<open>showError\<close>; but the call of
  \<open>processImage\<close> on the accepted file hides the error element before the event ends,
  so the rejection is not visible: the page shows the processing view and no error.
  The same oversize file alone leaves its message displayed.
\<close>

theorem oversize_error_hidden:
  "file_type big_png \<in> set validTypes \<and> maxSize < file_size big_png
   \<and> file_type photo_b \<in> set validTypes \<and> file_size photo_b = maxSize
   \<and> entered init (step init (Change [big_png, photo_b])) = [photo_b]
   \<and> emitted init (step init (Change [big_png, photo_b])) = [sizeError]
   \<and> \<not> errorActive (step init (Change [big_png, photo_b]))
   \<and> processingActive (step init (Change [big_png, photo_b]))
   \<and> entered init (step init (Drop [big_png, photo_b])) = [photo_b]
   \<and> emitted init (step init (Drop [big_png, photo_b])) = [sizeError]
   \<and> \<not> errorActive (step init (Drop [big_png, photo_b]))
   \<and> processingActive (step init (Drop [big_png, photo_b]))
   \<and> error_shown sizeError (step init (Change [big_png]))
   \<and> error_shown sizeError (step init (Drop [big_png]))"
proof -
  have a: "accepted photo_b" "\<not> accepted big_png" "rejection big_png = sizeError"
    "prefix ''image/'' (file_type big_png)" "prefix ''image/'' (file_type photo_b)"
    "file_type big_png \<in> set validTypes" "maxSize < file_size big_png"
    "file_type photo_b \<in> set validTypes" "file_size photo_b = maxSize"
    by (simp_all add: sample_defs gate_defs)
  have e: "entered init (step init (Change [big_png, photo_b])) = [photo_b]"
    "entered init (step init (Drop [big_png, photo_b])) = [photo_b]"
    "emitted init (step init (Change [big_png, photo_b])) = [sizeError]"
    "emitted init (step init (Drop [big_png, photo_b])) = [sizeError]"
    unfolding entered_Change entered_Drop emitted_Change emitted_Drop using a by simp_all
  have h: "\<not> errorActive (step init (Change [big_png, photo_b]))"
    "\<not> errorActive (step init (Drop [big_png, photo_b]))"
    using a accepted_hides_error[of "[big_png, photo_b]" init] by simp_all
  have p: "processingActive (step init (Change [big_png, photo_b]))"
    "processingActive (step init (Drop [big_png, photo_b]))"
    using a(4,5) by (simp_all add: ui_defs sample_defs)
  have s: "error_shown sizeError (step init (Change [big_png]))"
    "error_shown sizeError (step init (Drop [big_png]))"
    using a(4) Change_rejected_stays[of "[big_png]" init] Drop_rejected_stays[of "[big_png]" init] a(2,3)
    by (simp_all add: error_shown_def)
  show ?thesis using a e h p s by simp
qed

section \<open>The queue and its cursor\<close>

lemma catchError_fields [simp]:
  "processedImages (catchError e s) = processedImages s"
  "currentImageIndex (catchError e s) = currentImageIndex s"
  "queueItems (catchError e s) = queueItems s"
  "errorsShown (catchError e s) = errorsShown s @ [shownMessage e]"
  "errorText (catchError e s) = shownMessage e"
  "errorActive (catchError e s)"
  "uploadZoneDisplay (catchError e s) = DisplayBlock"
  "\<not> resultActive (catchError e s)"
  "\<not> processingActive (catchError e s)"
  "tasks (catchError e s) = tasks s"
  by (simp_all add: catchError_def showUpload_def hideProcessing_def showError_def)

lemma returnFrom_fields [simp]:
  "processedImages (returnFrom t s) = processedImages s"
  "currentImageIndex (returnFrom t s) = currentImageIndex s"
  "queueItems (returnFrom t s) = queueItems s"
  "errorsShown (returnFrom t s) = errorsShown s"
  "downloads (returnFrom t s) = downloads s"
  by (simp_all add: returnFrom_def startProcess_def hideError_def showProcessing_def split: list.splits)

lemma returnFrom_last:
  "trest t = [] \<Longrightarrow> returnFrom t s = s\<lparr>tasks := filter (\<lambda>u. tid u \<noteq> tid t) (tasks s)\<rparr>"
  by (simp add: returnFrom_def)

lemma storeResult_fields [simp]:
  "processedImages (storeResult t u b s) = processedImages s @ [newImageData t u b]"
  "currentImageIndex (storeResult t u b s) = int (length (processedImages s))"
  "queueItems (storeResult t u b s) =
     (if processedImages s = [] then queueItems s else Suc (length (processedImages s)))"
  "errorsShown (storeResult t u b s) = errorsShown s"
  "downloads (storeResult t u b s) = downloads s"
  by (simp_all add: storeResult_def updateQueue_def showResult_def setSliderPosition_def
      hideProcessing_def)

lemma showCurrent_fields [simp]:
  "processedImages (showCurrent s) = processedImages s"
  "currentImageIndex (showCurrent s) = currentImageIndex s"
  by (simp_all add: showCurrent_def updateQueue_def showResult_def setSliderPosition_def
      hideProcessing_def)

lemma showCurrent_queueItems:
  "queueItems s \<le> length (processedImages s) \<Longrightarrow>
     queueItems (showCurrent s) \<le> length (processedImages s)"
  by (simp add: showCurrent_def updateQueue_def showResult_def setSliderPosition_def
      hideProcessing_def)

lemma download_fields [simp]:
  "processedImages (download s) = processedImages s"
  "currentImageIndex (download s) = currentImageIndex s"
  "queueItems (download s) = queueItems s"
  by (simp_all add: download_def)

lemma newImage_fields [simp]:
  "processedImages (newImage s) = processedImages s"
  "currentImageIndex (newImage s) = currentImageIndex s"
  "queueItems (newImage s) = queueItems s"
  by (simp_all add: newImage_def hideError_def showUpload_def)

lemma handleSliderMove_fields [simp]:
  "processedImages (handleSliderMove x r s) = processedImages s"
  "currentImageIndex (handleSliderMove x r s) = currentImageIndex s"
  "queueItems (handleSliderMove x r s) = queueItems s"
  by (simp_all add: handleSliderMove_def setSliderPosition_def)

lemma inv_init: "app_inv init"
  by (simp add: app_inv_def cursor_ok_def init_def)

lemma inv_showCurrent:
  assumes "queueItems s \<le> length (processedImages s)" and "cursor_ok s"
  shows "app_inv (showCurrent s)"
  using assms showCurrent_queueItems[of s] by (simp add: app_inv_def cursor_ok_def)

lemma inv_keydown: "app_inv s \<Longrightarrow> app_inv (keydown key s)"
proof -
  assume a: "app_inv s"
  have l: "0 < currentImageIndex s \<Longrightarrow>
             app_inv (showCurrent (s\<lparr>currentImageIndex := currentImageIndex s - 1\<rparr>))"
    using a by (intro inv_showCurrent) (auto simp add: app_inv_def cursor_ok_def split: if_splits)
  have r: "currentImageIndex s < int (length (processedImages s)) - 1 \<Longrightarrow>
             app_inv (showCurrent (s\<lparr>currentImageIndex := currentImageIndex s + 1\<rparr>))"
    using a by (intro inv_showCurrent) (auto simp add: app_inv_def cursor_ok_def split: if_splits)
  have d: "app_inv (download s)" "app_inv (newImage s)"
    using a by (simp_all add: app_inv_def cursor_ok_def)
  show ?thesis using a l r d by (simp add: keydown_def)
qed

lemma inv_same:
  assumes "app_inv s" and "processedImages s' = processedImages s"
    and "currentImageIndex s' = currentImageIndex s" and "queueItems s' = queueItems s"
  shows "app_inv s'"
  using assms by (simp add: app_inv_def cursor_ok_def)

lemma inv_store:
  assumes "app_inv s"
  shows "app_inv (runMicrotasks (returnFrom t (storeResult t u b s)))"
  using assms by (auto simp add: app_inv_def cursor_ok_def)

lemma inv_step: "app_inv s \<Longrightarrow> app_inv (step s ev)"
proof (cases ev)
  case (Drop fs)
  assume "app_inv s" then show ?thesis unfolding Drop by (auto intro: inv_same)
next
  case (Change fs)
  assume "app_inv s" then show ?thesis unfolding Change by (auto intro: inv_same)
next
  case (ImportSettled k r)
  assume "app_inv s" then show ?thesis unfolding ImportSettled
    by (auto intro: inv_same split: option.splits settled.splits)
next
  case (InferenceSettled k r)
  assume "app_inv s" then show ?thesis unfolding InferenceSettled
    by (auto intro: inv_same inv_store split: option.splits settled.splits wait.splits)
next
  case (KeyDown key)
  assume "app_inv s" then show ?thesis unfolding KeyDown by (simp add: inv_keydown)
next
  case (QueueItemClick i)
  assume a: "app_inv s"
  have "i < queueItems s \<Longrightarrow> app_inv (showCurrent (s\<lparr>currentImageIndex := int i\<rparr>))"
    using a by (intro inv_showCurrent) (auto simp add: app_inv_def cursor_ok_def)
  then show ?thesis unfolding QueueItemClick using a by simp
next
  case DownloadClick
  assume "app_inv s" then show ?thesis unfolding DownloadClick by (auto intro: inv_same)
next
  case NewImageClick
  assume "app_inv s" then show ?thesis unfolding NewImageClick by (auto intro: inv_same)
next
  case SliderMouseDown
  assume "app_inv s" then show ?thesis unfolding SliderMouseDown by (auto intro: inv_same)
next
  case (MouseMove x r)
  assume "app_inv s" then show ?thesis unfolding MouseMove by (auto intro: inv_same)
next
  case MouseUp
  assume "app_inv s" then show ?thesis unfolding MouseUp by (auto intro: inv_same)
next
  case SliderTouchStart
  assume "app_inv s" then show ?thesis unfolding SliderTouchStart by (auto intro: inv_same)
next
  case (TouchMove xs r)
  assume "app_inv s" then show ?thesis unfolding TouchMove by (auto intro: inv_same)
next
  case TouchEnd
  assume "app_inv s" then show ?thesis unfolding TouchEnd by (auto intro: inv_same)
next
  case (ComparisonClick x r b)
  assume "app_inv s" then show ?thesis unfolding ComparisonClick by (auto intro: inv_same)
qed

lemma foldl_inv: "app_inv s \<Longrightarrow> app_inv (foldl step s evs)"
  by (induction evs arbitrary: s) (simp_all add: inv_step)

lemma exec_inv: "app_inv (exec evs)"
  by (simp add: exec_def foldl_inv inv_init)

lemma two_files_state:
  "exec two_files =
     \<lparr>removeBackgroundFn = True, modelLoaded = True, processedImages = [],
      currentImageIndex = - 1, isDragging = False, uploadZoneDisplay = DisplayNone,
      processingActive = True, resultActive = False, errorActive = False, errorText = [],
      originalSrc = None, resultSrc = None, clampedPercentage = None,
      queueActive = False, queueItems = 0,
      tasks = [\<lparr>tid = 0, tfile = photo_a, twait = AwaitInference (FileURL photo_a), trest = []\<rparr>,
               \<lparr>tid = 1, tfile = photo_b, twait = AwaitInference (FileURL photo_b), trest = []\<rparr>],
      nextTid = 2, errorsShown = [], calls = [(0, photo_a), (1, photo_b)], downloads = []\<rparr>"
  by (simp add: two_files_def app_defs sample_defs)

lemma in_order_state:
  "exec in_order =
     \<lparr>removeBackgroundFn = True, modelLoaded = True,
      processedImages =
        [\<lparr>original = FileURL photo_a, result = BlobURL [1], resultBlob = [1], name = ''a_nobg.png''\<rparr>,
         \<lparr>original = FileURL photo_b, result = BlobURL [2], resultBlob = [2], name = ''b.tar_nobg.png''\<rparr>],
      currentImageIndex = 1, isDragging = False, uploadZoneDisplay = DisplayNone,
      processingActive = False, resultActive = True, errorActive = False, errorText = [],
      originalSrc = Some (FileURL photo_b), resultSrc = Some (BlobURL [2]),
      clampedPercentage = Some (Fin 50),
      queueActive = True, queueItems = 2, tasks = [],
      nextTid = 2, errorsShown = [], calls = [(0, photo_a), (1, photo_b)], downloads = []\<rparr>"
  using two_files_state
  by (simp add: in_order_def exec_def) (simp add: ui_defs sample_defs)

lemma out_of_order_state:
  "exec out_of_order =
     \<lparr>removeBackgroundFn = True, modelLoaded = True,
      processedImages =
        [\<lparr>original = FileURL photo_b, result = BlobURL [2], resultBlob = [2], name = ''b.tar_nobg.png''\<rparr>,
         \<lparr>original = FileURL photo_a, result = BlobURL [1], resultBlob = [1], name = ''a_nobg.png''\<rparr>],
      currentImageIndex = 1, isDragging = False, uploadZoneDisplay = DisplayNone,
      processingActive = False, resultActive = True, errorActive = False, errorText = [],
      originalSrc = Some (FileURL photo_a), resultSrc = Some (BlobURL [1]),
      clampedPercentage = Some (Fin 50),
      queueActive = True, queueItems = 2, tasks = [],
      nextTid = 2, errorsShown = [], calls = [(0, photo_a), (1, photo_b)], downloads = []\<rparr>"
  using two_files_state
  by (simp add: out_of_order_def exec_def) (simp add: ui_defs sample_defs)

text \<open>
  Claim C4. On a fresh page the queue is empty and the cursor is \<open>-1\<close>. After any sequence
  of events, and after one more event of any kind (a successful or failed processing, a
  click on a queue item, an arrow key, or any other), the cursor is \<open>-1\<close> if the queue is
  empty and an index between 0 and length - 1 otherwise.
\<close>

theorem cursor_invariant:
  "cursor_ok (exec evs) \<and> cursor_ok (step (exec evs) ev)"
proof -
  have "app_inv (exec evs)" by (rule exec_inv)
  moreover from this have "app_inv (step (exec evs) ev)" by (rule inv_step)
  ultimately show ?thesis by (simp add: app_inv_def)
qed

theorem cursor_invariant_witness:
  "processedImages (exec []) = [] \<and> currentImageIndex (exec []) = - 1
   \<and> cursor_ok (exec [])
   \<and> cursor_ok (step (exec []) (KeyDown ''ArrowRight''))
   \<and> currentImageIndex (step (exec []) (KeyDown ''ArrowRight'')) = - 1
   \<and> length (processedImages (exec in_order)) = 2
   \<and> currentImageIndex (exec in_order) = 1
   \<and> cursor_ok (exec in_order)
   \<and> cursor_ok (step (exec in_order) (QueueItemClick 0))
   \<and> currentImageIndex (step (exec in_order) (QueueItemClick 0)) = 0"
  using cursor_invariant[of "[]" "KeyDown ''ArrowRight''"]
    cursor_invariant[of in_order "QueueItemClick 0"]
  by (simp add: in_order_state exec_Nil cursor_ok_def ui_defs)

lemma showCurrent_in_range:
  assumes "0 \<le> currentImageIndex s" and "currentImageIndex s < int (length (processedImages s))"
  shows "displays (showCurrent s) (processedImages s ! nat (currentImageIndex s))"
  using assms
  by (simp add: showCurrent_def displays_def updateQueue_def showResult_def
      setSliderPosition_def hideProcessing_def)

text \<open>
  Claim C8. In any state the page can reach in which the result view is shown: the left
  arrow with the cursor at 0 changes nothing, and the right arrow with the cursor at the
  last index changes nothing; with the cursor above 0 the left arrow moves it by exactly
  -1, with the cursor below the last index the right arrow moves it by exactly +1, and
  in both cases the queue is unchanged and the result view shows the record at the new
  cursor.
\<close>

theorem arrow_keys:
  assumes "resultActive (exec evs)"
  shows "(currentImageIndex (exec evs) = 0 \<longrightarrow>
            step (exec evs) (KeyDown ''ArrowLeft'') = exec evs)
       \<and> (currentImageIndex (exec evs) = int (length (processedImages (exec evs))) - 1 \<longrightarrow>
            step (exec evs) (KeyDown ''ArrowRight'') = exec evs)
       \<and> (0 < currentImageIndex (exec evs) \<longrightarrow>
            currentImageIndex (step (exec evs) (KeyDown ''ArrowLeft''))
              = currentImageIndex (exec evs) - 1
            \<and> processedImages (step (exec evs) (KeyDown ''ArrowLeft'')) = processedImages (exec evs)
            \<and> displays (step (exec evs) (KeyDown ''ArrowLeft''))
                 (processedImages (exec evs) ! nat (currentImageIndex (exec evs) - 1)))
       \<and> (currentImageIndex (exec evs) < int (length (processedImages (exec evs))) - 1 \<longrightarrow>
            currentImageIndex (step (exec evs) (KeyDown ''ArrowRight''))
              = currentImageIndex (exec evs) + 1
            \<and> processedImages (step (exec evs) (KeyDown ''ArrowRight'')) = processedImages (exec evs)
            \<and> displays (step (exec evs) (KeyDown ''ArrowRight''))
                 (processedImages (exec evs) ! nat (currentImageIndex (exec evs) + 1)))"
proof -
  define s where "s = exec evs"
  have inv: "app_inv s" unfolding s_def by (rule exec_inv)
  have act: "resultActive s" using assms unfolding s_def .
  have first: "currentImageIndex s = 0 \<longrightarrow> step s (KeyDown ''ArrowLeft'') = s"
    using act by (simp add: keydown_def)
  have last: "currentImageIndex s = int (length (processedImages s)) - 1 \<longrightarrow>
      step s (KeyDown ''ArrowRight'') = s"
    using act by (simp add: keydown_def)
  have left: "0 < currentImageIndex s \<longrightarrow>
      currentImageIndex (step s (KeyDown ''ArrowLeft'')) = currentImageIndex s - 1
      \<and> processedImages (step s (KeyDown ''ArrowLeft'')) = processedImages s
      \<and> displays (step s (KeyDown ''ArrowLeft'')) (processedImages s ! nat (currentImageIndex s - 1))"
  proof
    assume pos: "0 < currentImageIndex s"
    let ?t = "s\<lparr>currentImageIndex := currentImageIndex s - 1\<rparr>"
    have k: "step s (KeyDown ''ArrowLeft'') = showCurrent ?t"
      using act pos by (simp add: keydown_def)
    have "currentImageIndex s < int (length (processedImages s))"
      using inv pos by (auto simp add: app_inv_def cursor_ok_def split: if_splits)
    then have "displays (showCurrent ?t) (processedImages ?t ! nat (currentImageIndex ?t))"
      using pos by (intro showCurrent_in_range) simp_all
    then show "currentImageIndex (step s (KeyDown ''ArrowLeft'')) = currentImageIndex s - 1
      \<and> processedImages (step s (KeyDown ''ArrowLeft'')) = processedImages s
      \<and> displays (step s (KeyDown ''ArrowLeft'')) (processedImages s ! nat (currentImageIndex s - 1))"
      unfolding k by simp
  qed
  have right: "currentImageIndex s < int (length (processedImages s)) - 1 \<longrightarrow>
      currentImageIndex (step s (KeyDown ''ArrowRight'')) = currentImageIndex s + 1
      \<and> processedImages (step s (KeyDown ''ArrowRight'')) = processedImages s
      \<and> displays (step s (KeyDown ''ArrowRight'')) (processedImages s ! nat (currentImageIndex s + 1))"
  proof
    assume lt: "currentImageIndex s < int (length (processedImages s)) - 1"
    let ?t = "s\<lparr>currentImageIndex := currentImageIndex s + 1\<rparr>"
    have k: "step s (KeyDown ''ArrowRight'') = showCurrent ?t"
      using act lt by (simp add: keydown_def)
    have "0 \<le> currentImageIndex s"
      using inv lt by (auto simp add: app_inv_def cursor_ok_def split: if_splits)
    then have "displays (showCurrent ?t) (processedImages ?t ! nat (currentImageIndex ?t))"
      using lt by (intro showCurrent_in_range) simp_all
    then show "currentImageIndex (step s (KeyDown ''ArrowRight'')) = currentImageIndex s + 1
      \<and> processedImages (step s (KeyDown ''ArrowRight'')) = processedImages s
      \<and> displays (step s (KeyDown ''ArrowRight'')) (processedImages s ! nat (currentImageIndex s + 1))"
      unfolding k by simp
  qed
  show ?thesis using first last left right unfolding s_def by blast
qed

theorem arrow_keys_witness:
  "resultActive (exec in_order) \<and> currentImageIndex (exec in_order) = 1
   \<and> currentImageIndex (exec in_order) = int (length (processedImages (exec in_order))) - 1
   \<and> step (exec in_order) (KeyDown ''ArrowRight'') = exec in_order
   \<and> 0 < currentImageIndex (exec in_order)
   \<and> currentImageIndex (step (exec in_order) (KeyDown ''ArrowLeft'')) = 0
   \<and> displays (step (exec in_order) (KeyDown ''ArrowLeft'')) (processedImages (exec in_order) ! 0)
   \<and> resultActive (exec (in_order @ [KeyDown ''ArrowLeft'']))
   \<and> currentImageIndex (exec (in_order @ [KeyDown ''ArrowLeft''])) = 0
   \<and> step (exec (in_order @ [KeyDown ''ArrowLeft''])) (KeyDown ''ArrowLeft'')
       = exec (in_order @ [KeyDown ''ArrowLeft''])
   \<and> currentImageIndex (exec (in_order @ [KeyDown ''ArrowLeft'']))
       < int (length (processedImages (exec (in_order @ [KeyDown ''ArrowLeft''])))) - 1
   \<and> currentImageIndex (step (exec (in_order @ [KeyDown ''ArrowLeft''])) (KeyDown ''ArrowRight'')) = 1"
proof -
  have a: "resultActive (exec in_order)" "currentImageIndex (exec in_order) = 1"
    "length (processedImages (exec in_order)) = 2"
    by (simp_all add: in_order_state)
  have b: "resultActive (exec (in_order @ [KeyDown ''ArrowLeft'']))"
    "currentImageIndex (exec (in_order @ [KeyDown ''ArrowLeft''])) = 0"
    "length (processedImages (exec (in_order @ [KeyDown ''ArrowLeft'']))) = 2"
    by (simp_all add: exec_snoc in_order_state ui_defs)
  show ?thesis
    using a b arrow_keys[OF a(1)] arrow_keys[OF b(1)] by simp
qed

section \<open>Failures\<close>

lemma shownMessage_loadError:
  "shownMessage (loadError e) =
     loadErrorPrefix @ (case message e of Some m \<Rightarrow> m | None \<Rightarrow> ''undefined'')"
  by (simp add: shownMessage_def loadError_def loadErrorPrefix_def)

lemma shownMessage_cases:
  "shownMessage e =
     (if message e = None \<or> message e = Some [] then fallbackError else the (message e))"
  by (simp add: shownMessage_def split: option.splits)

lemma shownMessage_suffix:
  assumes "message e = Some m"
  shows "suffix m (shownMessage (loadError e))" and "suffix m (shownMessage e)"
  using assms
  by (simp_all add: shownMessage_def loadError_def loadErrorPrefix_def suffix_def)

text \<open>
  The \<open>catch\<close> clause of \<open>processImage\<close> followed by the return of the call: what the
  step leaves behind when the promise of a waiting call is rejected.
\<close>

lemma failure_step:
  "processedImages (runMicrotasks (returnFrom t (catchError e s))) = processedImages s"
  "currentImageIndex (runMicrotasks (returnFrom t (catchError e s))) = currentImageIndex s"
  "emitted s (runMicrotasks (returnFrom t (catchError e s))) = [shownMessage e]"
  "trest t = [] \<Longrightarrow>
     error_shown (shownMessage e) (runMicrotasks (returnFrom t (catchError e s)))
     \<and> upload_view (runMicrotasks (returnFrom t (catchError e s)))"
  "trest t \<noteq> [] \<Longrightarrow>
     processingActive (runMicrotasks (returnFrom t (catchError e s)))
     \<and> \<not> resultActive (runMicrotasks (returnFrom t (catchError e s)))
     \<and> uploadZoneDisplay (runMicrotasks (returnFrom t (catchError e s))) = DisplayNone
     \<and> tfile (last (tasks (runMicrotasks (returnFrom t (catchError e s))))) = hd (trest t)
     \<and> trest (last (tasks (runMicrotasks (returnFrom t (catchError e s))))) = tl (trest t)"
proof -
  show "processedImages (runMicrotasks (returnFrom t (catchError e s))) = processedImages s"
    "currentImageIndex (runMicrotasks (returnFrom t (catchError e s))) = currentImageIndex s"
    "emitted s (runMicrotasks (returnFrom t (catchError e s))) = [shownMessage e]"
    by (simp_all add: emitted_def)
  show "trest t = [] \<Longrightarrow>
     error_shown (shownMessage e) (runMicrotasks (returnFrom t (catchError e s)))
     \<and> upload_view (runMicrotasks (returnFrom t (catchError e s)))"
    by (simp add: returnFrom_last error_shown_def upload_view_def)
  show "trest t \<noteq> [] \<Longrightarrow>
     processingActive (runMicrotasks (returnFrom t (catchError e s)))
     \<and> \<not> resultActive (runMicrotasks (returnFrom t (catchError e s)))
     \<and> uploadZoneDisplay (runMicrotasks (returnFrom t (catchError e s))) = DisplayNone
     \<and> tfile (last (tasks (runMicrotasks (returnFrom t (catchError e s))))) = hd (trest t)
     \<and> trest (last (tasks (runMicrotasks (returnFrom t (catchError e s))))) = tl (trest t)"
    by (cases "trest t")
       (simp_all add: returnFrom_def startProcess_def runMicrotasks_def hideError_def
         showProcessing_def last_map)
qed

lemma load_fails_state:
  "awaiting 0 (exec [Change [photo_a]]) = Some \<lparr>tid = 0, tfile = photo_a, twait = AwaitImport, trest = []\<rparr>"
  by (simp add: app_defs sample_defs)

lemma inference_fails_state:
  "awaiting 0 (exec [Change [photo_a], ImportSettled 0 (Fulfilled ())])
     = Some \<lparr>tid = 0, tfile = photo_a, twait = AwaitInference (FileURL photo_a), trest = []\<rparr>"
  by (simp add: app_defs sample_defs)

lemma three_files_state:
  "exec three_files =
     \<lparr>removeBackgroundFn = True, modelLoaded = True, processedImages = [],
      currentImageIndex = - 1, isDragging = False, uploadZoneDisplay = DisplayNone,
      processingActive = True, resultActive = False, errorActive = False, errorText = [],
      originalSrc = None, resultSrc = None, clampedPercentage = None,
      queueActive = False, queueItems = 0,
      tasks = [\<lparr>tid = 0, tfile = photo_a, twait = AwaitInference (FileURL photo_a), trest = []\<rparr>,
               \<lparr>tid = 1, tfile = photo_b, twait = AwaitInference (FileURL photo_b),
                trest = [scan]\<rparr>],
      nextTid = 2, errorsShown = [], calls = [(0, photo_a), (1, photo_b)], downloads = []\<rparr>"
  by (simp add: three_files_def app_defs sample_defs)

lemma waiting_behind_state:
  "awaiting 1 (exec three_files)
     = Some \<lparr>tid = 1, tfile = photo_b, twait = AwaitInference (FileURL photo_b), trest = [scan]\<rparr>"
  by (simp add: three_files_state awaiting_def)

text \<open>
  Claim C7, as amended. Let a call of \<open>processImage\<close> wait for the dynamic import, or
  for \<open>removeBackgroundFn\<close>, and let that promise be rejected with \<open>e\<close>. The message of
  the failure is, for a failed import, the fixed prefix followed by the message of \<open>e\<close>;
  for a failed inference, the message of \<open>e\<close> itself, or the fixed fallback text when
  \<open>e\<close> has no message or an empty one; either way it ends with the message of \<open>e\<close>. The
  step leaves the queue and the cursor unchanged and passes exactly this message to
  \<open>showError\<close>. When no file waits behind the failed call, the page is in the upload
  view after the step, with this message displayed. When a file waits behind it, the
  loop goes on at once: after the step the page shows the processing view and a call of
  \<open>processImage\<close> on that file has been started, the files after it waiting behind the
  new call.
\<close>

theorem failure_handling:
  assumes "awaiting k s = Some t"
  shows "(twait t = AwaitImport \<longrightarrow>
            shownMessage (loadError e)
              = loadErrorPrefix @ (case message e of Some m \<Rightarrow> m | None \<Rightarrow> ''undefined'')
            \<and> (\<forall>m. message e = Some m \<longrightarrow> suffix m (shownMessage (loadError e)))
            \<and> processedImages (step s (ImportSettled k (Rejected e))) = processedImages s
            \<and> currentImageIndex (step s (ImportSettled k (Rejected e))) = currentImageIndex s
            \<and> emitted s (step s (ImportSettled k (Rejected e))) = [shownMessage (loadError e)]
            \<and> (trest t = [] \<longrightarrow>
                  error_shown (shownMessage (loadError e)) (step s (ImportSettled k (Rejected e)))
                  \<and> upload_view (step s (ImportSettled k (Rejected e))))
            \<and> (trest t \<noteq> [] \<longrightarrow>
                  processingActive (step s (ImportSettled k (Rejected e)))
                  \<and> \<not> resultActive (step s (ImportSettled k (Rejected e)))
                  \<and> uploadZoneDisplay (step s (ImportSettled k (Rejected e))) = DisplayNone
                  \<and> tfile (last (tasks (step s (ImportSettled k (Rejected e))))) = hd (trest t)
                  \<and> trest (last (tasks (step s (ImportSettled k (Rejected e))))) = tl (trest t)))
       \<and> (twait t = AwaitInference u \<longrightarrow>
            shownMessage e
              = (if message e = None \<or> message e = Some [] then fallbackError
                 else the (message e))
            \<and> (\<forall>m. message e = Some m \<longrightarrow> suffix m (shownMessage e))
            \<and> processedImages (step s (InferenceSettled k (Rejected e))) = processedImages s
            \<and> currentImageIndex (step s (InferenceSettled k (Rejected e))) = currentImageIndex s
            \<and> emitted s (step s (InferenceSettled k (Rejected e))) = [shownMessage e]
            \<and> (trest t = [] \<longrightarrow>
                  error_shown (shownMessage e) (step s (InferenceSettled k (Rejected e)))
                  \<and> upload_view (step s (InferenceSettled k (Rejected e))))
            \<and> (trest t \<noteq> [] \<longrightarrow>
                  processingActive (step s (InferenceSettled k (Rejected e)))
                  \<and> \<not> resultActive (step s (InferenceSettled k (Rejected e)))
                  \<and> uploadZoneDisplay (step s (InferenceSettled k (Rejected e))) = DisplayNone
                  \<and> tfile (last (tasks (step s (InferenceSettled k (Rejected e))))) = hd (trest t)
                  \<and> trest (last (tasks (step s (InferenceSettled k (Rejected e))))) = tl (trest t)))"
proof -
  have i: "twait t = AwaitImport \<Longrightarrow>
      step s (ImportSettled k (Rejected e))
        = runMicrotasks (returnFrom t (catchError (loadError e) s))"
    using assms by simp
  have j: "twait t = AwaitInference u \<Longrightarrow>
      step s (InferenceSettled k (Rejected e)) = runMicrotasks (returnFrom t (catchError e s))"
    using assms by simp
  have x: "\<forall>m. message e = Some m \<longrightarrow> suffix m (shownMessage (loadError e))"
    "\<forall>m. message e = Some m \<longrightarrow> suffix m (shownMessage e)"
    using shownMessage_suffix[of e] by blast+
  have a: "twait t = AwaitImport \<longrightarrow>
            shownMessage (loadError e)
              = loadErrorPrefix @ (case message e of Some m \<Rightarrow> m | None \<Rightarrow> ''undefined'')
            \<and> (\<forall>m. message e = Some m \<longrightarrow> suffix m (shownMessage (loadError e)))
            \<and> processedImages (step s (ImportSettled k (Rejected e))) = processedImages s
            \<and> currentImageIndex (step s (ImportSettled k (Rejected e))) = currentImageIndex s
            \<and> emitted s (step s (ImportSettled k (Rejected e))) = [shownMessage (loadError e)]
            \<and> (trest t = [] \<longrightarrow>
                  error_shown (shownMessage (loadError e)) (step s (ImportSettled k (Rejected e)))
                  \<and> upload_view (step s (ImportSettled k (Rejected e))))
            \<and> (trest t \<noteq> [] \<longrightarrow>
                  processingActive (step s (ImportSettled k (Rejected e)))
                  \<and> \<not> resultActive (step s (ImportSettled k (Rejected e)))
                  \<and> uploadZoneDisplay (step s (ImportSettled k (Rejected e))) = DisplayNone
                  \<and> tfile (last (tasks (step s (ImportSettled k (Rejected e))))) = hd (trest t)
                  \<and> trest (last (tasks (step s (ImportSettled k (Rejected e))))) = tl (trest t))"
  proof
    assume w: "twait t = AwaitImport"
    show "shownMessage (loadError e)
              = loadErrorPrefix @ (case message e of Some m \<Rightarrow> m | None \<Rightarrow> ''undefined'')
            \<and> (\<forall>m. message e = Some m \<longrightarrow> suffix m (shownMessage (loadError e)))
            \<and> processedImages (step s (ImportSettled k (Rejected e))) = processedImages s
            \<and> currentImageIndex (step s (ImportSettled k (Rejected e))) = currentImageIndex s
            \<and> emitted s (step s (ImportSettled k (Rejected e))) = [shownMessage (loadError e)]
            \<and> (trest t = [] \<longrightarrow>
                  error_shown (shownMessage (loadError e)) (step s (ImportSettled k (Rejected e)))
                  \<and> upload_view (step s (ImportSettled k (Rejected e))))
            \<and> (trest t \<noteq> [] \<longrightarrow>
                  processingActive (step s (ImportSettled k (Rejected e)))
                  \<and> \<not> resultActive (step s (ImportSettled k (Rejected e)))
                  \<and> uploadZoneDisplay (step s (ImportSettled k (Rejected e))) = DisplayNone
                  \<and> tfile (last (tasks (step s (ImportSettled k (Rejected e))))) = hd (trest t)
                  \<and> trest (last (tasks (step s (ImportSettled k (Rejected e))))) = tl (trest t))"
      unfolding i[OF w]
      using x(1) shownMessage_loadError[of e] failure_step[where t = t and e = "loadError e" and s = s] by blast
  qed
  have b: "twait t = AwaitInference u \<longrightarrow>
            shownMessage e
              = (if message e = None \<or> message e = Some [] then fallbackError
                 else the (message e))
            \<and> (\<forall>m. message e = Some m \<longrightarrow> suffix m (shownMessage e))
            \<and> processedImages (step s (InferenceSettled k (Rejected e))) = processedImages s
            \<and> currentImageIndex (step s (InferenceSettled k (Rejected e))) = currentImageIndex s
            \<and> emitted s (step s (InferenceSettled k (Rejected e))) = [shownMessage e]
            \<and> (trest t = [] \<longrightarrow>
                  error_shown (shownMessage e) (step s (InferenceSettled k (Rejected e)))
                  \<and> upload_view (step s (InferenceSettled k (Rejected e))))
            \<and> (trest t \<noteq> [] \<longrightarrow>
                  processingActive (step s (InferenceSettled k (Rejected e)))
                  \<and> \<not> resultActive (step s (InferenceSettled k (Rejected e)))
                  \<and> uploadZoneDisplay (step s (InferenceSettled k (Rejected e))) = DisplayNone
                  \<and> tfile (last (tasks (step s (InferenceSettled k (Rejected e))))) = hd (trest t)
                  \<and> trest (last (tasks (step s (InferenceSettled k (Rejected e))))) = tl (trest t))"
  proof
    assume w: "twait t = AwaitInference u"
    show "shownMessage e
              = (if message e = None \<or> message e = Some [] then fallbackError
                 else the (message e))
            \<and> (\<forall>m. message e = Some m \<longrightarrow> suffix m (shownMessage e))
            \<and> processedImages (step s (InferenceSettled k (Rejected e))) = processedImages s
            \<and> currentImageIndex (step s (InferenceSettled k (Rejected e))) = currentImageIndex s
            \<and> emitted s (step s (InferenceSettled k (Rejected e))) = [shownMessage e]
            \<and> (trest t = [] \<longrightarrow>
                  error_shown (shownMessage e) (step s (InferenceSettled k (Rejected e)))
                  \<and> upload_view (step s (InferenceSettled k (Rejected e))))
            \<and> (trest t \<noteq> [] \<longrightarrow>
                  processingActive (step s (InferenceSettled k (Rejected e)))
                  \<and> \<not> resultActive (step s (InferenceSettled k (Rejected e)))
                  \<and> uploadZoneDisplay (step s (InferenceSettled k (Rejected e))) = DisplayNone
                  \<and> tfile (last (tasks (step s (InferenceSettled k (Rejected e))))) = hd (trest t)
                  \<and> trest (last (tasks (step s (InferenceSettled k (Rejected e))))) = tl (trest t))"
      unfolding j[OF w]
      using x(2) shownMessage_cases[of e] failure_step[where t = t and e = e and s = s] by blast
  qed
  show ?thesis using a b by blast
qed

theorem failure_handling_witness:
  "awaiting 0 (exec [Change [photo_a]])
     = Some \<lparr>tid = 0, tfile = photo_a, twait = AwaitImport, trest = []\<rparr>
   \<and> error_shown ''Failed to load background removal model: network down''
        (step (exec [Change [photo_a]]) (ImportSettled 0 (Rejected (JsError (Some ''network down'')))))
   \<and> upload_view
        (step (exec [Change [photo_a]]) (ImportSettled 0 (Rejected (JsError (Some ''network down'')))))
   \<and> processedImages
        (step (exec [Change [photo_a]]) (ImportSettled 0 (Rejected (JsError (Some ''network down''))))) = []
   \<and> awaiting 0 (exec [Change [photo_a], ImportSettled 0 (Fulfilled ())])
     = Some \<lparr>tid = 0, tfile = photo_a, twait = AwaitInference (FileURL photo_a), trest = []\<rparr>
   \<and> error_shown ''out of memory''
        (step (exec [Change [photo_a], ImportSettled 0 (Fulfilled ())])
           (InferenceSettled 0 (Rejected (JsError (Some ''out of memory'')))))
   \<and> upload_view
        (step (exec [Change [photo_a], ImportSettled 0 (Fulfilled ())])
           (InferenceSettled 0 (Rejected (JsError (Some ''out of memory'')))))
   \<and> currentImageIndex
        (step (exec [Change [photo_a], ImportSettled 0 (Fulfilled ())])
           (InferenceSettled 0 (Rejected (JsError (Some ''out of memory''))))) = - 1
   \<and> awaiting 1 (exec three_files)
     = Some \<lparr>tid = 1, tfile = photo_b, twait = AwaitInference (FileURL photo_b), trest = [scan]\<rparr>
   \<and> emitted (exec three_files)
        (step (exec three_files) (InferenceSettled 1 (Rejected (JsError (Some ''out of memory'')))))
       = [''out of memory'']
   \<and> processingActive
        (step (exec three_files) (InferenceSettled 1 (Rejected (JsError (Some ''out of memory'')))))
   \<and> tfile (last (tasks
        (step (exec three_files) (InferenceSettled 1 (Rejected (JsError (Some ''out of memory''))))))) = scan"
proof -
  have q: "processedImages (exec [Change [photo_a]]) = []"
    "currentImageIndex (exec [Change [photo_a], ImportSettled 0 (Fulfilled ())]) = - 1"
    by (simp_all add: app_defs sample_defs)
  note a = failure_handling[OF load_fails_state, where e = "JsError (Some ''network down'')"]
  note b = failure_handling[OF inference_fails_state, where e = "JsError (Some ''out of memory'')"
        and u = "FileURL photo_a"]
  note c = failure_handling[OF waiting_behind_state, where e = "JsError (Some ''out of memory'')"
        and u = "FileURL photo_b"]
  have a': "error_shown ''Failed to load background removal model: network down''
        (step (exec [Change [photo_a]]) (ImportSettled 0 (Rejected (JsError (Some ''network down'')))))"
    "upload_view
        (step (exec [Change [photo_a]]) (ImportSettled 0 (Rejected (JsError (Some ''network down'')))))"
    "processedImages
        (step (exec [Change [photo_a]]) (ImportSettled 0 (Rejected (JsError (Some ''network down''))))) = []"
    using a q by (simp_all add: loadErrorPrefix_def shownMessage_def loadError_def del: step.simps)
  have b': "error_shown ''out of memory''
        (step (exec [Change [photo_a], ImportSettled 0 (Fulfilled ())])
           (InferenceSettled 0 (Rejected (JsError (Some ''out of memory'')))))"
    "upload_view
        (step (exec [Change [photo_a], ImportSettled 0 (Fulfilled ())])
           (InferenceSettled 0 (Rejected (JsError (Some ''out of memory'')))))"
    "currentImageIndex
        (step (exec [Change [photo_a], ImportSettled 0 (Fulfilled ())])
           (InferenceSettled 0 (Rejected (JsError (Some ''out of memory''))))) = - 1"
    using b q by (simp_all add: shownMessage_def del: step.simps)
  have c': "emitted (exec three_files)
        (step (exec three_files) (InferenceSettled 1 (Rejected (JsError (Some ''out of memory'')))))
       = [''out of memory'']"
    "processingActive
        (step (exec three_files) (InferenceSettled 1 (Rejected (JsError (Some ''out of memory'')))))"
    "tfile (last (tasks
        (step (exec three_files) (InferenceSettled 1 (Rejected (JsError (Some ''out of memory''))))))) = scan"
    using c by (simp_all add: shownMessage_def del: step.simps)
  show ?thesis
    using a' b' c' load_fails_state inference_fails_state waiting_behind_state by blast
qed

text \<open>
  The claim as written says that every failure ends with the failure message shown and
  the page in the upload view. Three files are chosen and the inference of the second
  one fails while the third waits behind it: after the step the page is not in the
  upload view but in the processing view, for the third file, and the error element is
  hidden.
\<close>

theorem failure_handling_counterexample:
  "awaiting 1 (exec three_files)
     = Some \<lparr>tid = 1, tfile = photo_b, twait = AwaitInference (FileURL photo_b), trest = [scan]\<rparr>
   \<and> \<not> upload_view
        (step (exec three_files) (InferenceSettled 1 (Rejected (JsError (Some ''out of memory'')))))
   \<and> processingActive
        (step (exec three_files) (InferenceSettled 1 (Rejected (JsError (Some ''out of memory'')))))
   \<and> \<not> errorActive
        (step (exec three_files) (InferenceSettled 1 (Rejected (JsError (Some ''out of memory'')))))
   \<and> inFlight
        (step (exec three_files) (InferenceSettled 1 (Rejected (JsError (Some ''out of memory'')))))
       = [0, 2]"
  by (simp add: three_files_state awaiting_def upload_view_def inFlight_def)
     (simp add: ui_defs)

section \<open>Suggested file name and download\<close>

lemma matchesAt_inner:
  "\<not> matchesAt (c # cs @ CHR ''.'' # ext)"
  by (simp add: isExtChar_def)

lemma replaceExt_split:
  assumes "ext \<noteq> []" and "list_all isExtChar ext"
  shows "replaceExt (base @ CHR ''.'' # ext) = base"
proof (induction base)
  case Nil
  show ?case using assms by simp
next
  case (Cons c cs)
  have "replaceExt ((c # cs) @ CHR ''.'' # ext) = c # replaceExt (cs @ CHR ''.'' # ext)"
    using matchesAt_inner[of c cs ext] by (simp del: matchesAt.simps)
  then show ?case using Cons by simp
qed

lemma replaceExt_none:
  assumes "\<nexists>base ext. n = base @ CHR ''.'' # ext \<and> ext \<noteq> [] \<and> list_all isExtChar ext"
  shows "replaceExt n = n"
  using assms
proof (induction n)
  case Nil
  show ?case by simp
next
  case (Cons c cs)
  have a: "\<not> matchesAt (c # cs)"
  proof
    assume "matchesAt (c # cs)"
    then have "c # cs = [] @ CHR ''.'' # cs \<and> cs \<noteq> [] \<and> list_all isExtChar cs" by simp
    then show False using Cons.prems by blast
  qed
  have b: "\<nexists>base ext. cs = base @ CHR ''.'' # ext \<and> ext \<noteq> [] \<and> list_all isExtChar ext"
  proof
    assume "\<exists>base ext. cs = base @ CHR ''.'' # ext \<and> ext \<noteq> [] \<and> list_all isExtChar ext"
    then obtain base ext where "cs = base @ CHR ''.'' # ext" "ext \<noteq> []" "list_all isExtChar ext"
      by blast
    then have "c # cs = (c # base) @ CHR ''.'' # ext \<and> ext \<noteq> [] \<and> list_all isExtChar ext"
      by simp
    then show False using Cons.prems by blast
  qed
  show ?case using a Cons.IH[OF b] by (simp del: matchesAt.simps)
qed

lemma download_current:
  assumes "0 \<le> currentImageIndex s" and "currentImageIndex s < int (length (processedImages s))"
  shows "downloads (step s DownloadClick) =
     downloads s @ [(result (processedImages s ! nat (currentImageIndex s)),
                     name (processedImages s ! nat (currentImageIndex s)))]"
  using assms by (simp add: download_def)

lemma second_call_state:
  "awaiting 1 (exec two_files)
     = Some \<lparr>tid = 1, tfile = photo_b, twait = AwaitInference (FileURL photo_b), trest = []\<rparr>"
  by (simp add: two_files_state awaiting_def)

lemma scan_call_state:
  "awaiting 0 (exec [Change [scan], ImportSettled 0 (Fulfilled ())])
     = Some \<lparr>tid = 0, tfile = scan, twait = AwaitInference (FileURL scan), trest = []\<rparr>"
  by (simp add: app_defs sample_defs)

lemma scan_no_extension:
  "\<nexists>base ext. ''scan'' = base @ CHR ''.'' # ext \<and> ext \<noteq> [] \<and> list_all isExtChar ext"
proof
  assume "\<exists>base ext. ''scan'' = base @ CHR ''.'' # ext \<and> ext \<noteq> [] \<and> list_all isExtChar ext"
  then obtain base ext where "''scan'' = base @ CHR ''.'' # ext" by blast
  then have "CHR ''.'' \<in> set ''scan''" by (metis in_set_conv_decomp)
  then show False by simp
qed

text \<open>
  Claim C10. When the inference of a call of \<open>processImage\<close> on a file is fulfilled with
  a blob, the record appended to the queue carries that blob, and its name is the name
  of the file with \<open>replaceExt\<close> applied, followed by \<open>_nobg.png\<close>. \<open>replaceExt\<close>
  removes the final extension: if the name is \<open>base\<close>, a dot, and one or more characters
  none of which is a dot or a slash, the result is \<open>base\<close>; if the name has no such
  ending it is left unchanged. A click on the download button right after saves the
  object URL of the blob under exactly this name, and in general the download button
  saves the result of the record at the cursor under the name of that record.
\<close>

theorem suggested_name:
  assumes "awaiting k s = Some t" and "twait t = AwaitInference u"
  shows "processedImages (step s (InferenceSettled k (Fulfilled b)))
           = processedImages s @ [newImageData t u b]
       \<and> resultBlob (newImageData t u b) = b
       \<and> result (newImageData t u b) = BlobURL b
       \<and> name (newImageData t u b) = replaceExt (file_name (tfile t)) @ ''_nobg.png''
       \<and> (\<forall>base ext. file_name (tfile t) = base @ CHR ''.'' # ext \<and> ext \<noteq> []
              \<and> list_all isExtChar ext \<longrightarrow> replaceExt (file_name (tfile t)) = base)
       \<and> ((\<nexists>base ext. file_name (tfile t) = base @ CHR ''.'' # ext \<and> ext \<noteq> []
              \<and> list_all isExtChar ext) \<longrightarrow> replaceExt (file_name (tfile t)) = file_name (tfile t))
       \<and> downloads (step (step s (InferenceSettled k (Fulfilled b))) DownloadClick)
           = downloads s @ [(BlobURL b, name (newImageData t u b))]
       \<and> (0 \<le> currentImageIndex s2 \<and> currentImageIndex s2 < int (length (processedImages s2)) \<longrightarrow>
            downloads (step s2 DownloadClick)
              = downloads s2 @ [(result (processedImages s2 ! nat (currentImageIndex s2)),
                                 name (processedImages s2 ! nat (currentImageIndex s2)))])"
proof -
  let ?s' = "step s (InferenceSettled k (Fulfilled b))"
  have st: "?s' = runMicrotasks (returnFrom t (storeResult t u b s))"
    using assms by simp
  have q: "processedImages ?s' = processedImages s @ [newImageData t u b]"
    "currentImageIndex ?s' = int (length (processedImages s))"
    "downloads ?s' = downloads s"
    unfolding st by simp_all
  have d: "downloads (step ?s' DownloadClick) = downloads s @ [(BlobURL b, name (newImageData t u b))]"
    using q by (simp add: download_def newImageData_def)
  have n: "name (newImageData t u b) = replaceExt (file_name (tfile t)) @ ''_nobg.png''"
    "resultBlob (newImageData t u b) = b" "result (newImageData t u b) = BlobURL b"
    by (simp_all add: newImageData_def suggestedName_def)
  have e1: "\<forall>base ext. file_name (tfile t) = base @ CHR ''.'' # ext \<and> ext \<noteq> []
              \<and> list_all isExtChar ext \<longrightarrow> replaceExt (file_name (tfile t)) = base"
    using replaceExt_split by auto
  have e2: "(\<nexists>base ext. file_name (tfile t) = base @ CHR ''.'' # ext \<and> ext \<noteq> []
              \<and> list_all isExtChar ext) \<longrightarrow> replaceExt (file_name (tfile t)) = file_name (tfile t)"
    using replaceExt_none by blast
  show ?thesis
    using q(1) n d e1 e2 download_current[of s2] by blast
qed

theorem suggested_name_witness:
  "awaiting 1 (exec two_files)
     = Some \<lparr>tid = 1, tfile = photo_b, twait = AwaitInference (FileURL photo_b), trest = []\<rparr>
   \<and> file_name photo_b = ''b.tar'' @ CHR ''.'' # ''png'' \<and> ''png'' \<noteq> [] \<and> list_all isExtChar ''png''
   \<and> map name (processedImages (step (exec two_files) (InferenceSettled 1 (Fulfilled [2]))))
       = [''b.tar_nobg.png'']
   \<and> downloads (step (step (exec two_files) (InferenceSettled 1 (Fulfilled [2]))) DownloadClick)
       = [(BlobURL [2], ''b.tar_nobg.png'')]
   \<and> awaiting 0 (exec [Change [scan], ImportSettled 0 (Fulfilled ())])
     = Some \<lparr>tid = 0, tfile = scan, twait = AwaitInference (FileURL scan), trest = []\<rparr>
   \<and> (\<nexists>base ext. file_name scan = base @ CHR ''.'' # ext \<and> ext \<noteq> [] \<and> list_all isExtChar ext)
   \<and> map name (processedImages
        (step (exec [Change [scan], ImportSettled 0 (Fulfilled ())]) (InferenceSettled 0 (Fulfilled [3]))))
       = [''scan_nobg.png'']
   \<and> 0 \<le> currentImageIndex (exec in_order)
   \<and> currentImageIndex (exec in_order) < int (length (processedImages (exec in_order)))
   \<and> downloads (step (exec in_order) DownloadClick) = [(BlobURL [2], ''b.tar_nobg.png'')]"
proof -
  have a: "file_name photo_b = ''b.tar'' @ CHR ''.'' # ''png''" "list_all isExtChar ''png''"
    "file_name scan = ''scan''"
    by (simp_all add: sample_defs isExtChar_def)
  have q: "processedImages (exec two_files) = []" "downloads (exec two_files) = []"
    "processedImages (exec [Change [scan], ImportSettled 0 (Fulfilled ())]) = []"
    by (simp_all add: two_files_state) (simp add: app_defs sample_defs)
  have i: "0 \<le> currentImageIndex (exec in_order)"
    "currentImageIndex (exec in_order) < int (length (processedImages (exec in_order)))"
    by (simp_all add: in_order_state)
  have n: "newImageData \<lparr>tid = 1, tfile = photo_b, twait = AwaitInference (FileURL photo_b), trest = []\<rparr>
      (FileURL photo_b) [2] = \<lparr>original = FileURL photo_b, result = BlobURL [2], resultBlob = [2],
        name = ''b.tar_nobg.png''\<rparr>"
    by (simp add: newImageData_def suggestedName_def isExtChar_def sample_defs)
  have m: "newImageData \<lparr>tid = 0, tfile = scan, twait = AwaitInference (FileURL scan), trest = []\<rparr>
      (FileURL scan) [3] = \<lparr>original = FileURL scan, result = BlobURL [3], resultBlob = [3],
        name = ''scan_nobg.png''\<rparr>"
    by (simp add: newImageData_def suggestedName_def isExtChar_def sample_defs)
  have t1: "processedImages (step (exec two_files) (InferenceSettled 1 (Fulfilled [2])))
             = [newImageData \<lparr>tid = 1, tfile = photo_b, twait = AwaitInference (FileURL photo_b), trest = []\<rparr>
                  (FileURL photo_b) [2]]"
    "downloads (step (step (exec two_files) (InferenceSettled 1 (Fulfilled [2]))) DownloadClick)
       = [(BlobURL [2], name (newImageData \<lparr>tid = 1, tfile = photo_b, twait = AwaitInference (FileURL photo_b), trest = []\<rparr>
                  (FileURL photo_b) [2]))]"
    "downloads (step (exec in_order) DownloadClick)
       = downloads (exec in_order) @ [(result (processedImages (exec in_order) ! nat (currentImageIndex (exec in_order))),
                                 name (processedImages (exec in_order) ! nat (currentImageIndex (exec in_order))))]"
    using suggested_name[OF second_call_state, of "FileURL photo_b" "[2]" "exec in_order"] q i
    by simp_all
  have t2: "processedImages (step (exec [Change [scan], ImportSettled 0 (Fulfilled ())])
                (InferenceSettled 0 (Fulfilled [3])))
             = [newImageData \<lparr>tid = 0, tfile = scan, twait = AwaitInference (FileURL scan), trest = []\<rparr>
                  (FileURL scan) [3]]"
    using suggested_name[OF scan_call_state, of "FileURL scan" "[3]" "exec in_order"] q
    by simp
  have d: "downloads (step (exec in_order) DownloadClick) = [(BlobURL [2], ''b.tar_nobg.png'')]"
    unfolding t1(3) by (simp add: in_order_state)
  show ?thesis
    unfolding t1(1,2) t2 n m using second_call_state scan_call_state scan_no_extension a i d
    by simp
qed

section \<open>The comparison slider\<close>

lemma clamp_bounds: "0 \<le> max 0 (min 100 (p::real)) \<and> max 0 (min 100 p) \<le> 100"
  by simp

lemma clamp_cases:
  "(q::real) \<le> 0 \<Longrightarrow> max 0 (min 100 q) = 0"
  "100 \<le> q \<Longrightarrow> max 0 (min 100 q) = 100"
  "0 \<le> q \<Longrightarrow> q \<le> 100 \<Longrightarrow> max 0 (min 100 q) = q"
  by simp_all

lemma handleSliderMove_pos:
  assumes "0 < rect_width r"
  shows "clampedPercentage (handleSliderMove clientX r s)
           = Some (Fin (max 0 (min 100 ((clientX - rect_left r) / rect_width r * 100))))"
  using assms by (simp add: handleSliderMove_def setSliderPosition_def percentage_of_def)

text \<open>
  Claim C6. For a widget of positive width and every pointer coordinate, the position
  that \<open>handleSliderMove\<close> applies is a finite number between 0 and 100: it is 0 for a
  coordinate at or left of the left edge, 100 for a coordinate at or right of the right
  edge, and the percentage of the width covered from the left edge for a coordinate in
  between. A click in the comparison area off the handle, and a mouse or single-touch
  move during a drag, apply exactly this position. Numbers are taken as reals: the
  rounding of floating-point arithmetic is not modelled.
\<close>

theorem slider_clamped:
  assumes "0 < rect_width r"
  shows "\<exists>p. clampedPercentage (handleSliderMove clientX r s) = Some (Fin p)
           \<and> 0 \<le> p \<and> p \<le> 100
           \<and> (clientX \<le> rect_left r \<longrightarrow> p = 0)
           \<and> (rect_left r + rect_width r \<le> clientX \<longrightarrow> p = 100)
           \<and> (rect_left r < clientX \<and> clientX < rect_left r + rect_width r \<longrightarrow>
                 p = (clientX - rect_left r) / rect_width r * 100)
           \<and> step s (ComparisonClick clientX r False) = handleSliderMove clientX r s
           \<and> (isDragging s \<longrightarrow>
                 step s (MouseMove clientX r) = handleSliderMove clientX r s
                 \<and> step s (TouchMove [clientX] r) = handleSliderMove clientX r s)"
proof -
  let ?q = "(clientX - rect_left r) / rect_width r * 100"
  let ?p = "max 0 (min 100 ?q)"
  have w: "0 < rect_width r" by (rule assms)
  have l: "clientX \<le> rect_left r \<longrightarrow> ?p = 0"
  proof
    assume "clientX \<le> rect_left r"
    then have "clientX - rect_left r \<le> 0" by simp
    then have "(clientX - rect_left r) / rect_width r \<le> 0"
      using w by (intro divide_nonpos_pos)
    then have "?q \<le> 0" by (intro mult_nonpos_nonneg) simp_all
    then show "?p = 0" by (rule clamp_cases(1))
  qed
  have g: "rect_left r + rect_width r \<le> clientX \<longrightarrow> ?p = 100"
  proof
    assume "rect_left r + rect_width r \<le> clientX"
    then have "rect_width r \<le> clientX - rect_left r" by simp
    then have "rect_width r / rect_width r \<le> (clientX - rect_left r) / rect_width r"
      using w by (intro divide_right_mono) simp_all
    then have "1 \<le> (clientX - rect_left r) / rect_width r" using w by simp
    then have "1 * 100 \<le> ?q" by (intro mult_right_mono) simp_all
    then have "100 \<le> ?q" by (simp only: mult_1)
    then show "?p = 100" by (rule clamp_cases(2))
  qed
  have m: "rect_left r < clientX \<and> clientX < rect_left r + rect_width r \<longrightarrow> ?p = ?q"
  proof
    assume a: "rect_left r < clientX \<and> clientX < rect_left r + rect_width r"
    then have x: "0 \<le> clientX - rect_left r" "clientX - rect_left r \<le> rect_width r" by simp_all
    have lo: "0 \<le> (clientX - rect_left r) / rect_width r"
      using x(1) w by (intro divide_nonneg_pos)
    have "(clientX - rect_left r) / rect_width r \<le> rect_width r / rect_width r"
      using x(2) w by (intro divide_right_mono) simp_all
    then have hi: "(clientX - rect_left r) / rect_width r \<le> 1" using w by simp
    have q0: "0 \<le> ?q" using lo by (intro mult_nonneg_nonneg) simp_all
    have "?q \<le> 1 * 100" using hi by (intro mult_right_mono) simp_all
    then have "?q \<le> 100" by (simp only: mult_1)
    with q0 show "?p = ?q" by (rule clamp_cases(3))
  qed
  have e: "step s (ComparisonClick clientX r False) = handleSliderMove clientX r s"
    "isDragging s \<longrightarrow>
       step s (MouseMove clientX r) = handleSliderMove clientX r s
       \<and> step s (TouchMove [clientX] r) = handleSliderMove clientX r s"
    by simp_all
  show ?thesis
    using handleSliderMove_pos[OF w, of clientX s] clamp_bounds[of ?q] l g m e
    by (intro exI[of _ ?p]) blast
qed

theorem slider_clamped_witness:
  "(0::real) < rect_width \<lparr>rect_left = 10, rect_width = 40\<rparr>
   \<and> clampedPercentage (handleSliderMove (- 500) \<lparr>rect_left = 10, rect_width = 40\<rparr> init) = Some (Fin 0)
   \<and> clampedPercentage (handleSliderMove 10 \<lparr>rect_left = 10, rect_width = 40\<rparr> init) = Some (Fin 0)
   \<and> clampedPercentage (handleSliderMove 50 \<lparr>rect_left = 10, rect_width = 40\<rparr> init) = Some (Fin 100)
   \<and> clampedPercentage (handleSliderMove 9000 \<lparr>rect_left = 10, rect_width = 40\<rparr> init) = Some (Fin 100)
   \<and> clampedPercentage (handleSliderMove 20 \<lparr>rect_left = 10, rect_width = 40\<rparr> init) = Some (Fin 25)"
proof -
  have w: "(0::real) < rect_width \<lparr>rect_left = 10, rect_width = 40\<rparr>" by simp
  show ?thesis
    using w slider_clamped[OF w, of "- 500" init] slider_clamped[OF w, of 10 init]
      slider_clamped[OF w, of 50 init] slider_clamped[OF w, of 9000 init]
      slider_clamped[OF w, of 20 init]
    by auto
qed

section \<open>Order of processing\<close>

text \<open>
  The queue only grows, at its end, by one record per step at most; the record is made
  from a call of \<open>processImage\<close> that was waiting, and the cursor goes to it.
\<close>

lemma awaiting_in_tasks: "awaiting k s = Some t \<Longrightarrow> t \<in> set (tasks s)"
  by (auto simp add: awaiting_def find_Some_iff)

lemma step_queue:
  "(processedImages (step s ev) = processedImages s)
   \<or> (\<exists>t u b. t \<in> set (tasks s)
          \<and> processedImages (step s ev) = processedImages s @ [newImageData t u b]
          \<and> currentImageIndex (step s ev) = int (length (processedImages (step s ev))) - 1)"
proof (cases ev)
  case (InferenceSettled k r)
  then show ?thesis
    by (cases r) (auto split: option.splits wait.splits dest: awaiting_in_tasks)
next
  case (ImportSettled k r)
  then show ?thesis
    by (cases r) (auto split: option.splits)
next
  case (KeyDown key)
  then show ?thesis by (simp add: keydown_def)
qed simp_all

lemma queue_grows: "prefix (processedImages s) (processedImages (foldl step s evs))"
proof (induction evs arbitrary: s)
  case Nil
  show ?case by simp
next
  case (Cons ev evs)
  have "prefix (processedImages s) (processedImages (step s ev))"
    using step_queue[of s ev] by auto
  then show ?case using Cons[of "step s ev"] by (auto intro: prefix_order.trans)
qed

text \<open>
  Whenever a batch with at least two accepted files is chosen while the model is loaded
  and nothing is being processed, the calls for its first two accepted files are both in
  flight after the event; the remaining files wait behind the second call.
\<close>

lemma first_two_start_together:
  assumes "filter accepted fs = f # g # others" and "removeBackgroundFn s" and "tasks s = []"
  shows "inFlight (step s (Change fs)) = [nextTid s, Suc (nextTid s)]"
    and "map trest (tasks (step s (Change fs))) = [[], others]"
proof -
  have ne: "fs \<noteq> []" using assms(1) by auto
  show "inFlight (step s (Change fs)) = [nextTid s, Suc (nextTid s)]"
    using ne assms
    by (simp add: handleFiles_def filterFiles_eq inFlight_def runMicrotasks_def)
  show "map trest (tasks (step s (Change fs))) = [[], others]"
    using ne assms
    by (simp add: handleFiles_def filterFiles_eq runMicrotasks_def)
qed

text \<open>
  Claim C1, evaluated on the code. Two accepted files are chosen on a fresh page and
  the two dynamic imports are fulfilled: \<open>removeBackgroundFn\<close> has then been called for
  both files and neither call has settled, while the queue is still empty and no error
  has been shown, so the first item is neither Result-Ready nor Error. With the model
  already loaded the same happens within the one event: both calls are started before
  anything else can run. \<open>handleFiles\<close> does not await its call of \<open>processImage\<close> on
  the first file, so the loop of \<open>processRemainingFiles\<close> starts on the second file at
  once.
\<close>

theorem two_calls_in_flight:
  "length (filter accepted [photo_a, photo_b]) = 2
   \<and> inFlight (exec two_files) = [0, 1]
   \<and> calls (exec two_files) = [(0, photo_a), (1, photo_b)]
   \<and> processedImages (exec two_files) = []
   \<and> errorsShown (exec two_files) = []
   \<and> removeBackgroundFn (exec in_order)
   \<and> inFlight (exec in_order) = []
   \<and> inFlight (step (exec in_order) (Change [photo_a, photo_b])) = [2, 3]"
  by (simp add: two_files_state in_order_state inFlight_def gate_defs sample_defs)
     (simp add: ui_defs sample_defs)

text \<open>
  Claim C5, evaluated on the code. With the two calls in flight together, the inference
  of the second file may be fulfilled first, and its record is then appended first: the
  queue holds the records in the order of completion, not of submission.
\<close>

theorem completion_order_in_queue:
  "submitted (step init (Change [photo_a, photo_b])) = [photo_a, photo_b]
   \<and> map original (processedImages (exec out_of_order)) = [FileURL photo_b, FileURL photo_a]
   \<and> map name (processedImages (exec out_of_order)) = [''b.tar_nobg.png'', ''a_nobg.png'']"
  by (simp add: out_of_order_state submitted_def) (simp add: ui_defs sample_defs)

section \<open>The asset fetcher\<close>

lemma plainNames_iff:
  "plainNames e ns =
     (inj_on (joinPublic e) (set ns)
      \<and> list_all (\<lambda>n. dirname e (joinPublic e n) = publicDir e) ns)"
  by (simp add: plainNames_def distinct_map)

lemma ensureDir_Inr:
  assumes "ensureDir e d st = Inr st'"
  shows "\<exists>fs. set (files st) \<subseteq> set fs \<and> st' = st\<lparr>files := fs\<rparr>" and "existsSync e st' d"
proof -
  show "\<exists>fs. set (files st) \<subseteq> set fs \<and> st' = st\<lparr>files := fs\<rparr>"
  proof (cases "existsSync e st d")
    case True
    then have "st' = st\<lparr>files := files st\<rparr>" using assms by (simp add: ensureDir_def)
    then show ?thesis by blast
  next
    case False
    then have "st' = st\<lparr>files := d # ancestors e d @ files st\<rparr>"
      using assms by (simp add: ensureDir_def split: option.splits)
    moreover have "set (files st) \<subseteq> set (d # ancestors e d @ files st)" by auto
    ultimately show ?thesis by blast
  qed
  show "existsSync e st' d"
    using assms by (auto simp add: ensureDir_def existsSync_def split: if_splits option.splits)
qed

lemma ensureDir_exists: "existsSync e st d \<Longrightarrow> ensureDir e d st = Inr st"
  by (simp add: ensureDir_def)

lemma downloadFile_shape:
  "\<exists>fs. set (files st) \<subseteq> set fs
        \<and> snd (downloadFile e url dest st) = st\<lparr>fetched := fetched st @ [url], files := fs\<rparr>
        \<and> (\<not> isl (fst (downloadFile e url dest st)) \<longrightarrow> dest \<in> set fs)"
proof (cases "fetch e url")
  case (NetworkError m)
  then have "snd (downloadFile e url dest st) = st\<lparr>fetched := fetched st @ [url], files := files st\<rparr>"
    "isl (fst (downloadFile e url dest st))"
    by (simp_all add: downloadFile_def)
  then show ?thesis by blast
next
  case (Response ok statusText n)
  show ?thesis
  proof (cases ok)
    case False
    then have "snd (downloadFile e url dest st) = st\<lparr>fetched := fetched st @ [url], files := files st\<rparr>"
      "isl (fst (downloadFile e url dest st))"
      using Response by (simp_all add: downloadFile_def)
    then show ?thesis by blast
  next
    case True
    let ?st = "st\<lparr>fetched := fetched st @ [url]\<rparr>"
    show ?thesis
    proof (cases "ensureDir e (dirname e dest) ?st")
      case (Inl m)
      then have "snd (downloadFile e url dest st) = st\<lparr>fetched := fetched st @ [url], files := files st\<rparr>"
        "isl (fst (downloadFile e url dest st))"
        using Response True by (simp_all add: downloadFile_def)
      then show ?thesis by blast
    next
      case (Inr st1)
      obtain fs where fs: "set (files ?st) \<subseteq> set fs" "st1 = ?st\<lparr>files := fs\<rparr>"
        using ensureDir_Inr(1)[OF Inr] by blast
      show ?thesis
      proof (cases "writeThrows e dest")
        case (Some m)
        then have "snd (downloadFile e url dest st) = st\<lparr>fetched := fetched st @ [url], files := fs\<rparr>"
          "isl (fst (downloadFile e url dest st))"
          using Response True Inr fs(2) by (simp_all add: downloadFile_def)
        then show ?thesis using fs(1) by auto
      next
        case None
        then have "snd (downloadFile e url dest st)
            = st\<lparr>fetched := fetched st @ [url], files := dest # fs\<rparr>"
          using Response True Inr fs(2) by (simp add: downloadFile_def)
        moreover have "set (files st) \<subseteq> set (dest # fs)" using fs(1) by auto
        ultimately show ?thesis by (intro exI[of _ "dest # fs"]) simp
      qed
    qed
  qed
qed

lemma downloadFile_result:
  assumes "downloadFile e url dest st = (r, st')"
  shows "fetched st' = fetched st @ [url]" "downloaded st' = downloaded st"
    "skipped st' = skipped st" "failed st' = failed st" "errorLog st' = errorLog st"
    "totalBytes st' = totalBytes st" "set (files st) \<subseteq> set (files st')"
    "\<not> isl r \<Longrightarrow> dest \<in> set (files st')"
  using assms downloadFile_shape[where st = st and e = e and url = url and dest = dest] by auto

lemma existsSync_mono:
  "set (files st) \<subseteq> set (files st') \<Longrightarrow> existsSync e st p \<Longrightarrow> existsSync e st' p"
  by (auto simp add: existsSync_def)

lemma chunkLoop_Cons: "chunkLoop e b (h # hs) st = chunkLoop e b hs (chunkStep e b h st)"
  by (simp add: chunkStep_def)

text \<open>What one round of the loop does, whatever the paths are.\<close>

lemma chunkStep_fields:
  "fetched (chunkStep e b h st)
     = fetched st @ (if existsSync e st (joinPublic e h) then [] else [chunkUrl b h])"
  "downloaded (chunkStep e b h st) + skipped (chunkStep e b h st) + failed (chunkStep e b h st)
     = Suc (downloaded st + skipped st + failed st)"
  "downloaded (chunkStep e b h st) + failed (chunkStep e b h st)
     = downloaded st + failed st + (if existsSync e st (joinPublic e h) then 0 else 1)"
  "failed (chunkStep e b h st) + length (errorLog st)
     = failed st + length (errorLog (chunkStep e b h st))"
  "set (files st) \<subseteq> set (files (chunkStep e b h st))"
proof -
  obtain r st' where d: "downloadFile e (chunkUrl b h) (joinPublic e h) st = (r, st')"
    by (cases "downloadFile e (chunkUrl b h) (joinPublic e h) st") blast
  note f = downloadFile_result[OF d]
  have s: "chunkStep e b h st =
      (if existsSync e st (joinPublic e h) then st\<lparr>skipped := skipped st + 1\<rparr>
       else (case r of
               Inr n \<Rightarrow> st'\<lparr>totalBytes := totalBytes st' + n, downloaded := downloaded st' + 1\<rparr>
             | Inl m \<Rightarrow> st'\<lparr>failed := failed st' + 1, errorLog := errorLog st' @ [(take 16 h, m)]\<rparr>))"
    by (simp add: chunkStep_def d split: sum.splits)
  show "fetched (chunkStep e b h st)
     = fetched st @ (if existsSync e st (joinPublic e h) then [] else [chunkUrl b h])"
    unfolding s using f by (simp split: sum.splits)
  show "downloaded (chunkStep e b h st) + skipped (chunkStep e b h st) + failed (chunkStep e b h st)
     = Suc (downloaded st + skipped st + failed st)"
    unfolding s using f by (simp split: sum.splits)
  show "downloaded (chunkStep e b h st) + failed (chunkStep e b h st)
     = downloaded st + failed st + (if existsSync e st (joinPublic e h) then 0 else 1)"
    unfolding s using f by (simp split: sum.splits)
  show "failed (chunkStep e b h st) + length (errorLog st)
     = failed st + length (errorLog (chunkStep e b h st))"
    unfolding s using f by (simp split: sum.splits)
  show "set (files st) \<subseteq> set (files (chunkStep e b h st))"
    unfolding s using f(7) by (auto split: sum.splits)
qed

lemma chunkLoop_files: "set (files st) \<subseteq> set (files (chunkLoop e b hs st))"
proof (induction hs arbitrary: st)
  case Nil
  show ?case by simp
next
  case (Cons h hs)
  show ?case
    unfolding chunkLoop_Cons
    using chunkStep_fields(5)[where st = st and e = e and b = b and h = h]
      Cons[where st = "chunkStep e b h st"] by blast
qed

lemma chunkLoop_general:
  "fetched (chunkLoop e b hs st) = fetched st @ map (chunkUrl b) (attempted e b hs st)
   \<and> downloaded (chunkLoop e b hs st) + skipped (chunkLoop e b hs st) + failed (chunkLoop e b hs st)
       = downloaded st + skipped st + failed st + length hs
   \<and> downloaded (chunkLoop e b hs st) + failed (chunkLoop e b hs st)
       = downloaded st + failed st + length (attempted e b hs st)
   \<and> failed (chunkLoop e b hs st) + length (errorLog st)
       = failed st + length (errorLog (chunkLoop e b hs st))"
proof (induction hs arbitrary: st)
  case Nil
  show ?case by simp
next
  case (Cons h hs)
  note ih = Cons[where st = "chunkStep e b h st"]
  note f = chunkStep_fields[where e = e and b = b and h = h and st = st]
  show ?case
    unfolding chunkLoop_Cons attempted.simps
    using ih f(1,2,3,4) by (simp split: if_splits)
qed

lemma attempted_subseq: "subseq (attempted e b hs st) hs"
proof (induction hs arbitrary: st)
  case Nil
  show ?case by simp
next
  case (Cons h hs)
  show ?case using Cons[where st = "chunkStep e b h st"] by (auto intro: list_emb_Cons)
qed

lemma attempted_absent:
  "h \<in> set (attempted e b hs st) \<Longrightarrow> \<not> existsSync e st (joinPublic e h)"
proof (induction hs arbitrary: st)
  case Nil
  then show ?case by simp
next
  case (Cons g hs)
  show ?case
  proof (cases "h = g \<and> \<not> existsSync e st (joinPublic e g)")
    case True
    then show ?thesis by simp
  next
    case False
    then have "h \<in> set (attempted e b hs (chunkStep e b g st))"
      using Cons.prems by (auto split: if_splits)
    then have "\<not> existsSync e (chunkStep e b g st) (joinPublic e h)" by (rule Cons.IH)
    then show ?thesis
      using existsSync_mono[OF chunkStep_fields(5)[where st = st and e = e and b = b and h = g],
          where p = "joinPublic e h"] by blast
  qed
qed

text \<open>The same for plain file names, with the target directory in place.\<close>

lemma downloadFile_plain:
  assumes "existsSync e st (dirname e dest)"
  shows "downloadFails e url dest \<Longrightarrow>
           \<exists>m. downloadFile e url dest st = (Inl m, st\<lparr>fetched := fetched st @ [url]\<rparr>)"
    and "\<not> downloadFails e url dest \<Longrightarrow>
           \<exists>n. downloadFile e url dest st
                 = (Inr n, st\<lparr>fetched := fetched st @ [url], files := dest # files st\<rparr>)"
proof -
  have x: "ensureDir e (dirname e dest) (st\<lparr>fetched := fetched st @ [url]\<rparr>)
             = Inr (st\<lparr>fetched := fetched st @ [url]\<rparr>)"
    using assms by (intro ensureDir_exists) (simp add: existsSync_def)
  show "downloadFails e url dest \<Longrightarrow>
           \<exists>m. downloadFile e url dest st = (Inl m, st\<lparr>fetched := fetched st @ [url]\<rparr>)"
    by (auto simp add: downloadFails_def downloadFile_def x split: response.splits if_splits)
  show "\<not> downloadFails e url dest \<Longrightarrow>
           \<exists>n. downloadFile e url dest st
                 = (Inr n, st\<lparr>fetched := fetched st @ [url], files := dest # files st\<rparr>)"
    by (auto simp add: downloadFails_def downloadFile_def x split: response.splits if_splits)
qed

lemma chunkStep_plain:
  assumes "existsSync e st (publicDir e)" and "dirname e (joinPublic e h) = publicDir e"
  shows "failed (chunkStep e b h st)
           = failed st + (if \<not> existsSync e st (joinPublic e h)
                             \<and> downloadFails e (chunkUrl b h) (joinPublic e h) then 1 else 0)"
    and "map fst (errorLog (chunkStep e b h st))
           = map fst (errorLog st)
             @ (if \<not> existsSync e st (joinPublic e h)
                   \<and> downloadFails e (chunkUrl b h) (joinPublic e h) then [take 16 h] else [])"
    and "set (files (chunkStep e b h st)) \<subseteq> insert (joinPublic e h) (set (files st))"
proof -
  have d: "existsSync e st (dirname e (joinPublic e h))" using assms by simp
  note f = downloadFile_plain[OF d, where url = "chunkUrl b h"]
  show "failed (chunkStep e b h st)
           = failed st + (if \<not> existsSync e st (joinPublic e h)
                             \<and> downloadFails e (chunkUrl b h) (joinPublic e h) then 1 else 0)"
    using f by (cases "downloadFails e (chunkUrl b h) (joinPublic e h)") (auto simp add: chunkStep_def)
  show "map fst (errorLog (chunkStep e b h st))
           = map fst (errorLog st)
             @ (if \<not> existsSync e st (joinPublic e h)
                   \<and> downloadFails e (chunkUrl b h) (joinPublic e h) then [take 16 h] else [])"
    using f by (cases "downloadFails e (chunkUrl b h) (joinPublic e h)") (auto simp add: chunkStep_def)
  show "set (files (chunkStep e b h st)) \<subseteq> insert (joinPublic e h) (set (files st))"
    using f by (cases "downloadFails e (chunkUrl b h) (joinPublic e h)") (auto simp add: chunkStep_def)
qed

lemma chunkLoop_plain:
  assumes "distinct hs" and "inj_on (joinPublic e) (set hs)"
    and "list_all (\<lambda>n. dirname e (joinPublic e n) = publicDir e) hs"
    and "existsSync e st (publicDir e)"
  shows "attempted e b hs st = filter (\<lambda>h. \<not> existsSync e st (joinPublic e h)) hs
       \<and> failed (chunkLoop e b hs st)
           = failed st
             + length (filter (\<lambda>h. \<not> existsSync e st (joinPublic e h)
                                  \<and> downloadFails e (chunkUrl b h) (joinPublic e h)) hs)
       \<and> map fst (errorLog (chunkLoop e b hs st))
           = map fst (errorLog st)
             @ map (take 16)
                 (filter (\<lambda>h. \<not> existsSync e st (joinPublic e h)
                              \<and> downloadFails e (chunkUrl b h) (joinPublic e h)) hs)"
  using assms
proof (induction hs arbitrary: st)
  case Nil
  show ?case by simp
next
  case (Cons h hs)
  let ?st = "chunkStep e b h st"
  have dir: "dirname e (joinPublic e h) = publicDir e" using Cons.prems(3) by simp
  note p = chunkStep_plain[OF Cons.prems(4) dir, where b = b]
  have mono: "set (files st) \<subseteq> set (files ?st)"
    by (rule chunkStep_fields(5))
  have ex: "existsSync e ?st (publicDir e)"
    using existsSync_mono[OF mono Cons.prems(4)] .
  have same: "\<And>g. g \<in> set hs \<Longrightarrow>
      existsSync e ?st (joinPublic e g) = existsSync e st (joinPublic e g)"
  proof -
    fix g assume g: "g \<in> set hs"
    then have "g \<noteq> h" using Cons.prems(1) by auto
    then have "joinPublic e g \<noteq> joinPublic e h"
      using Cons.prems(2) g by (auto simp add: inj_on_def)
    then show "existsSync e ?st (joinPublic e g) = existsSync e st (joinPublic e g)"
      using p(3) mono by (auto simp add: existsSync_def)
  qed
  have c1: "filter (\<lambda>g. \<not> existsSync e ?st (joinPublic e g)) hs
      = filter (\<lambda>g. \<not> existsSync e st (joinPublic e g)) hs"
    using same by (intro filter_cong) auto
  have c2: "filter (\<lambda>g. \<not> existsSync e ?st (joinPublic e g)
                        \<and> downloadFails e (chunkUrl b g) (joinPublic e g)) hs
      = filter (\<lambda>g. \<not> existsSync e st (joinPublic e g)
                        \<and> downloadFails e (chunkUrl b g) (joinPublic e g)) hs"
    using same by (intro filter_cong) auto
  have ih: "attempted e b hs ?st = filter (\<lambda>h. \<not> existsSync e ?st (joinPublic e h)) hs
       \<and> failed (chunkLoop e b hs ?st)
           = failed ?st
             + length (filter (\<lambda>h. \<not> existsSync e ?st (joinPublic e h)
                                  \<and> downloadFails e (chunkUrl b h) (joinPublic e h)) hs)
       \<and> map fst (errorLog (chunkLoop e b hs ?st))
           = map fst (errorLog ?st)
             @ map (take 16)
                 (filter (\<lambda>h. \<not> existsSync e ?st (joinPublic e h)
                              \<and> downloadFails e (chunkUrl b h) (joinPublic e h)) hs)"
    using Cons.prems by (intro Cons.IH[OF _ _ _ ex]) simp_all
  show ?case
    unfolding chunkLoop_Cons attempted.simps
    using ih unfolding c1 c2 p(1,2) by simp
qed

lemma distinct_setAdd: "distinct xs \<Longrightarrow> distinct (setAdd xs h)"
  by (simp add: setAdd_def)

lemma distinct_foldl_setAdd: "distinct xs \<Longrightarrow> distinct (foldl setAdd xs hs)"
  by (induction hs arbitrary: xs) (simp_all add: distinct_setAdd)

lemma distinct_entries:
  "distinct acc \<Longrightarrow>
     distinct (foldl (\<lambda>acc entry. case snd entry of None \<Rightarrow> acc | Some hs \<Rightarrow> foldl setAdd acc hs)
                 acc m)"
  by (induction m arbitrary: acc) (simp_all add: distinct_foldl_setAdd split: option.splits)

lemma distinct_allChunks: "distinct (allChunks m)"
  unfolding allChunks_def by (rule distinct_entries) simp

lemma inj_chunkUrl: "inj (chunkUrl b)"
  by (simp add: inj_def chunkUrl_def)

lemma resourcesUrl_chunk: "resourcesUrl v = chunkUrl (getBaseUrl v) ''resources.json''"
  by (simp add: resourcesUrl_def chunkUrl_def)

lemma attempted_set: "set (attempted e b hs st) \<subseteq> set hs"
  using attempted_subseq[of e b hs st] by (auto dest: list_emb_set)

lemma attempted_distinct: "distinct hs \<Longrightarrow> distinct (attempted e b hs st)"
proof (induction hs arbitrary: st)
  case Nil
  show ?case by simp
next
  case (Cons h hs)
  have "h \<notin> set (attempted e b hs (chunkStep e b h st))"
    using Cons.prems attempted_set[of e b hs "chunkStep e b h st"] by auto
  then show ?case using Cons by simp
qed

lemma start_fields:
  "fetched start = []" "files start = []" "failed start = 0"
  "skipped start = 0" "downloaded start = 0" "errorLog start = []"
  by (simp_all add: start_def)

lemma main_unfold:
  assumes "packageVersion e = Some v" and "ensureDir e (publicDir e) start = Inr st0"
    and "downloadFile e (resourcesUrl v) (joinPublic e ''resources.json'') st0 = (r, st1)"
  shows "main e =
     (case r of
        Inl msg \<Rightarrow> (1, st1\<lparr>errorLog := errorLog st1 @ [(''resources.json'', msg)]\<rparr>)
      | Inr n \<Rightarrow>
          (case parsedManifest e of
             None \<Rightarrow> (1, st1)
           | Some m \<Rightarrow> (0, chunkLoop e (getBaseUrl v) (allChunks m) st1)))"
    and "fetched st1 = [resourcesUrl v]" and "downloaded st1 = 0" and "skipped st1 = 0"
    and "failed st1 = 0" and "errorLog st1 = []" and "existsSync e st1 (publicDir e)"
    and "\<not> isl r \<Longrightarrow> existsSync e st1 (joinPublic e ''resources.json'')"
proof -
  obtain fs where st0: "st0 = start\<lparr>files := fs\<rparr>"
    using ensureDir_Inr(1)[OF assms(2)] by blast
  note d = downloadFile_result[OF assms(3)]
  show "main e =
     (case r of
        Inl msg \<Rightarrow> (1, st1\<lparr>errorLog := errorLog st1 @ [(''resources.json'', msg)]\<rparr>)
      | Inr n \<Rightarrow>
          (case parsedManifest e of
             None \<Rightarrow> (1, st1)
           | Some m \<Rightarrow> (0, chunkLoop e (getBaseUrl v) (allChunks m) st1)))"
    using assms by (simp add: main_def resourcesUrl_def split: sum.splits)
  show "fetched st1 = [resourcesUrl v]" "downloaded st1 = 0" "skipped st1 = 0"
    "failed st1 = 0" "errorLog st1 = []"
    using d st0 by (simp_all add: start_fields)
  show "existsSync e st1 (publicDir e)"
    using existsSync_mono[OF d(7) ensureDir_Inr(2)[OF assms(2)]] .
  show "\<not> isl r \<Longrightarrow> existsSync e st1 (joinPublic e ''resources.json'')"
    using d(8) by (simp add: existsSync_def)
qed

lemma main_manifest_fails:
  assumes "packageVersion e = Some v" and "ensureDir e (publicDir e) start = Inr st0"
    and "downloadFile e (resourcesUrl v) (joinPublic e ''resources.json'') st0 = (r, st1)"
    and "isl r"
  shows "fst (main e) = 1" and "fetched (snd (main e)) = [resourcesUrl v]"
    and "map fst (errorLog (snd (main e))) = [''resources.json'']"
  using main_unfold[OF assms(1,2,3)] assms(4) by (auto simp add: isl_def)

lemma main_chunks:
  assumes "packageVersion e = Some v" and "ensureDir e (publicDir e) start = Inr st0"
    and "downloadFile e (resourcesUrl v) (joinPublic e ''resources.json'') st0 = (r, st1)"
    and "\<not> isl r" and "parsedManifest e = Some m"
  shows "fst (main e) = 0"
    and "fetched (snd (main e))
           = resourcesUrl v # map (chunkUrl (getBaseUrl v)) (attempted e (getBaseUrl v) (allChunks m) st1)"
    and "downloaded (snd (main e)) + skipped (snd (main e)) + failed (snd (main e))
           = length (allChunks m)"
    and "downloaded (snd (main e)) + failed (snd (main e))
           = length (attempted e (getBaseUrl v) (allChunks m) st1)"
    and "length (errorLog (snd (main e))) = failed (snd (main e))"
    and "set (attempted e (getBaseUrl v) (allChunks m) st1) \<subseteq> set (missing e st1 m)"
    and "plainNames e (''resources.json'' # allChunks m) \<Longrightarrow>
           attempted e (getBaseUrl v) (allChunks m) st1 = missing e st1 m
           \<and> failed (snd (main e)) = length (failing e v st1 m)
           \<and> map fst (errorLog (snd (main e))) = map (take 16) (failing e v st1 m)"
proof -
  note u = main_unfold[OF assms(1,2,3)]
  obtain n where r: "r = Inr n" using assms(4) by (cases r) auto
  have m: "main e = (0, chunkLoop e (getBaseUrl v) (allChunks m) st1)"
    using u(1) r assms(5) by simp
  note g = chunkLoop_general[where e = e and b = "getBaseUrl v" and hs = "allChunks m" and st = st1]
  show "fst (main e) = 0" using m by simp
  show "fetched (snd (main e))
           = resourcesUrl v # map (chunkUrl (getBaseUrl v)) (attempted e (getBaseUrl v) (allChunks m) st1)"
    using g u(2) by (simp add: m)
  show "downloaded (snd (main e)) + skipped (snd (main e)) + failed (snd (main e))
           = length (allChunks m)"
    using g u(3,4,5) by (simp add: m)
  show "downloaded (snd (main e)) + failed (snd (main e))
           = length (attempted e (getBaseUrl v) (allChunks m) st1)"
    using g u(3,5) by (simp add: m)
  show "length (errorLog (snd (main e))) = failed (snd (main e))"
    using g u(5,6) by (simp add: m)
  show "set (attempted e (getBaseUrl v) (allChunks m) st1) \<subseteq> set (missing e st1 m)"
    using attempted_set[of e "getBaseUrl v" "allChunks m" st1]
      attempted_absent[where e = e and b = "getBaseUrl v" and hs = "allChunks m" and st = st1]
    by (auto simp add: missing_def)
  show "attempted e (getBaseUrl v) (allChunks m) st1 = missing e st1 m
           \<and> failed (snd (main e)) = length (failing e v st1 m)
           \<and> map fst (errorLog (snd (main e))) = map (take 16) (failing e v st1 m)"
    if pl: "plainNames e (''resources.json'' # allChunks m)"
  proof -
    have i: "inj_on (joinPublic e) (set (allChunks m))"
      using pl by (auto simp add: plainNames_iff inj_on_def)
    have l: "list_all (\<lambda>n. dirname e (joinPublic e n) = publicDir e) (allChunks m)"
      using pl by (simp add: plainNames_iff)
    note c = chunkLoop_plain[OF distinct_allChunks[of m] i l u(7), where b = "getBaseUrl v"]
    show ?thesis
      using c u(5,6) by (simp add: m missing_def failing_def)
  qed
qed

lemma distinct_fetched:
  assumes "packageVersion e = Some v" and "ensureDir e (publicDir e) start = Inr st0"
    and "downloadFile e (resourcesUrl v) (joinPublic e ''resources.json'') st0 = (r, st1)"
  shows "distinct (fetched (snd (main e)))"
proof (cases r)
  case (Inl msg)
  then show ?thesis using main_manifest_fails(2)[OF assms] by simp
next
  case (Inr n)
  note u = main_unfold[OF assms]
  show ?thesis
  proof (cases "parsedManifest e")
    case None
    then show ?thesis using u(1,2) Inr by simp
  next
    case (Some m)
    let ?a = "attempted e (getBaseUrl v) (allChunks m) st1"
    have nr: "\<not> isl r" using Inr by simp
    have "distinct ?a" using distinct_allChunks by (rule attempted_distinct)
    then have d: "distinct (map (chunkUrl (getBaseUrl v)) ?a)"
      using inj_chunkUrl by (simp add: distinct_map inj_on_def inj_def)
    have "''resources.json'' \<notin> set ?a"
      using attempted_absent[of "''resources.json''" e "getBaseUrl v" "allChunks m" st1] u(8)[OF nr]
      by blast
    then have n: "resourcesUrl v \<notin> set (map (chunkUrl (getBaseUrl v)) ?a)"
      unfolding resourcesUrl_chunk using inj_chunkUrl[of "getBaseUrl v"]
      by (auto simp add: inj_def)
    show ?thesis
      using d n main_chunks(2)[OF assms nr Some] by simp
  qed
qed

text \<open>
  A name that \<open>path.join\<close> maps to the target directory itself (the empty name, or
  \<open>.\<close>) is skipped: the directory exists.
\<close>

lemma chunkStep_directory:
  assumes "joinPublic e h = publicDir e" and "existsSync e st (publicDir e)"
  shows "chunkStep e b h st = st\<lparr>skipped := skipped st + 1\<rparr>"
  using assms by (simp add: chunkStep_def)

lemma sample_chunks: "allChunks sample_manifest = [''aaa'', ''bbb'', ''ccc'', ''ddd'']"
  by (simp add: allChunks_def setAdd_def sample_manifest_def)

lemma sample_env_facts:
  "packageVersion sample_env = Some ''1.4.5''"
  "parsedManifest sample_env = Some sample_manifest"
  "ensureDir sample_env (publicDir sample_env) start = Inr start"
  "downloadFile sample_env (resourcesUrl ''1.4.5'') (joinPublic sample_env ''resources.json'') start
     = (Inr 300, sample_written)"
  by (simp_all add: sample_env_def ensureDir_def existsSync_def downloadFile_def resourcesUrl_def
      getBaseUrl_def sample_written_def start_def)

lemma sample_plain: "plainNames sample_env (''resources.json'' # allChunks sample_manifest)"
  by (simp add: plainNames_iff sample_chunks sample_env_def inj_on_def)

lemma sample_missing: "missing sample_env sample_written sample_manifest = [''aaa'', ''bbb'', ''ddd'']"
  by (simp add: missing_def sample_chunks existsSync_def sample_env_def sample_written_def start_def)

lemma sample_failing:
  "failing sample_env ''1.4.5'' sample_written sample_manifest = [''aaa'', ''ddd'']"
  by (simp add: failing_def sample_missing)
     (simp add: downloadFails_def sample_env_def resourcesUrl_def chunkUrl_def getBaseUrl_def)

lemma offline_env_facts:
  "packageVersion offline_env = Some ''1.4.5''"
  "ensureDir offline_env (publicDir offline_env) start = Inr start"
  "downloadFile offline_env (resourcesUrl ''1.4.5'') (joinPublic offline_env ''resources.json'') start
     = (Inl ''fetch failed'', start\<lparr>fetched := [resourcesUrl ''1.4.5'']\<rparr>)"
  by (simp_all add: offline_env_def sample_env_def ensureDir_def existsSync_def downloadFile_def
      start_def)

text \<open>
  Claim C9. Let the package version be readable and the target directory be there or
  creatable, and let the download of the manifest give the result \<open>r\<close>. If \<open>r\<close> is a
  failure, the process exits with code 1 after that one fetch and one logged failure.
  If it is a success and the manifest parses, the process exits with code 0 whatever
  happens to the chunks: the URLs fetched are the manifest and then, in order, every
  chunk that the loop does not skip, each of which had no file at its path once the
  manifest was written; every chunk is downloaded, skipped or failed; every chunk
  attempted is downloaded or failed; and every failure is logged and counted. When the
  chunk names are plain file names, the chunks attempted are exactly those with no file
  at their path, also after earlier chunks have failed, and the failures counted and
  logged are exactly those of them whose download fails. In every case no URL is
  fetched twice: nothing is retried.
\<close>

theorem fetcher_failures:
  assumes "packageVersion e = Some v" and "ensureDir e (publicDir e) start = Inr st0"
    and "downloadFile e (resourcesUrl v) (joinPublic e ''resources.json'') st0 = (r, st1)"
  shows "(isl r \<longrightarrow>
            fst (main e) = 1
            \<and> fetched (snd (main e)) = [resourcesUrl v]
            \<and> map fst (errorLog (snd (main e))) = [''resources.json''])
       \<and> (\<not> isl r \<and> parsedManifest e = Some m \<longrightarrow>
            fst (main e) = 0
            \<and> fetched (snd (main e))
                = resourcesUrl v
                  # map (chunkUrl (getBaseUrl v)) (attempted e (getBaseUrl v) (allChunks m) st1)
            \<and> set (attempted e (getBaseUrl v) (allChunks m) st1) \<subseteq> set (missing e st1 m)
            \<and> downloaded (snd (main e)) + skipped (snd (main e)) + failed (snd (main e))
                = length (allChunks m)
            \<and> downloaded (snd (main e)) + failed (snd (main e))
                = length (attempted e (getBaseUrl v) (allChunks m) st1)
            \<and> length (errorLog (snd (main e))) = failed (snd (main e))
            \<and> (plainNames e (''resources.json'' # allChunks m) \<longrightarrow>
                  attempted e (getBaseUrl v) (allChunks m) st1 = missing e st1 m
                  \<and> failed (snd (main e)) = length (failing e v st1 m)
                  \<and> map fst (errorLog (snd (main e))) = map (take 16) (failing e v st1 m)))
       \<and> distinct (fetched (snd (main e)))"
proof -
  have a: "isl r \<longrightarrow>
            fst (main e) = 1
            \<and> fetched (snd (main e)) = [resourcesUrl v]
            \<and> map fst (errorLog (snd (main e))) = [''resources.json'']"
    using main_manifest_fails[OF assms] by blast
  have b: "\<not> isl r \<and> parsedManifest e = Some m \<longrightarrow>
            fst (main e) = 0
            \<and> fetched (snd (main e))
                = resourcesUrl v
                  # map (chunkUrl (getBaseUrl v)) (attempted e (getBaseUrl v) (allChunks m) st1)
            \<and> set (attempted e (getBaseUrl v) (allChunks m) st1) \<subseteq> set (missing e st1 m)
            \<and> downloaded (snd (main e)) + skipped (snd (main e)) + failed (snd (main e))
                = length (allChunks m)
            \<and> downloaded (snd (main e)) + failed (snd (main e))
                = length (attempted e (getBaseUrl v) (allChunks m) st1)
            \<and> length (errorLog (snd (main e))) = failed (snd (main e))
            \<and> (plainNames e (''resources.json'' # allChunks m) \<longrightarrow>
                  attempted e (getBaseUrl v) (allChunks m) st1 = missing e st1 m
                  \<and> failed (snd (main e)) = length (failing e v st1 m)
                  \<and> map fst (errorLog (snd (main e))) = map (take 16) (failing e v st1 m))"
    using main_chunks[OF assms, of m] by blast
  show ?thesis
    using a b distinct_fetched[OF assms] by blast
qed

theorem fetcher_failures_witness:
  "packageVersion sample_env = Some ''1.4.5''
   \<and> ensureDir sample_env (publicDir sample_env) start = Inr start
   \<and> downloadFile sample_env (resourcesUrl ''1.4.5'') (joinPublic sample_env ''resources.json'') start
       = (Inr 300, sample_written)
   \<and> \<not> isl (Inr 300 :: string + nat)
   \<and> parsedManifest sample_env = Some sample_manifest
   \<and> plainNames sample_env (''resources.json'' # allChunks sample_manifest)
   \<and> fst (main sample_env) = 0
   \<and> fetched (snd (main sample_env))
       = [resourcesUrl ''1.4.5'', chunkUrl (getBaseUrl ''1.4.5'') ''aaa'',
          chunkUrl (getBaseUrl ''1.4.5'') ''bbb'', chunkUrl (getBaseUrl ''1.4.5'') ''ddd'']
   \<and> failed (snd (main sample_env)) = 2
   \<and> map fst (errorLog (snd (main sample_env))) = [''aaa'', ''ddd'']
   \<and> downloaded (snd (main sample_env)) = 1
   \<and> skipped (snd (main sample_env)) = 1
   \<and> packageVersion offline_env = Some ''1.4.5''
   \<and> ensureDir offline_env (publicDir offline_env) start = Inr start
   \<and> downloadFile offline_env (resourcesUrl ''1.4.5'') (joinPublic offline_env ''resources.json'') start
       = (Inl ''fetch failed'', start\<lparr>fetched := [resourcesUrl ''1.4.5'']\<rparr>)
   \<and> isl (Inl ''fetch failed'' :: string + nat)
   \<and> fst (main offline_env) = 1
   \<and> fetched (snd (main offline_env)) = [resourcesUrl ''1.4.5'']"
proof -
  note s = fetcher_failures[OF sample_env_facts(1,3,4), of sample_manifest]
  note f = fetcher_failures[OF offline_env_facts, of "[]"]
  have a: "attempted sample_env (getBaseUrl ''1.4.5'') (allChunks sample_manifest) sample_written
      = missing sample_env sample_written sample_manifest"
    using s sample_env_facts(2) sample_plain by simp
  have b: "fst (main sample_env) = 0"
    "fetched (snd (main sample_env))
       = resourcesUrl ''1.4.5''
         # map (chunkUrl (getBaseUrl ''1.4.5'')) (missing sample_env sample_written sample_manifest)"
    "failed (snd (main sample_env)) = length (failing sample_env ''1.4.5'' sample_written sample_manifest)"
    "map fst (errorLog (snd (main sample_env)))
       = map (take 16) (failing sample_env ''1.4.5'' sample_written sample_manifest)"
    "downloaded (snd (main sample_env)) + skipped (snd (main sample_env))
       + failed (snd (main sample_env)) = length (allChunks sample_manifest)"
    "downloaded (snd (main sample_env)) + failed (snd (main sample_env))
       = length (missing sample_env sample_written sample_manifest)"
    using s sample_env_facts(2) sample_plain unfolding a by simp_all
  have c: "fst (main offline_env) = 1" "fetched (snd (main offline_env)) = [resourcesUrl ''1.4.5'']"
    using f by simp_all
  show ?thesis
    using b c
    by (simp add: sample_env_facts offline_env_facts sample_plain[unfolded sample_chunks]
        sample_missing sample_failing sample_chunks)
qed

end
